theory Spec2Isabelle
  imports Complex_Main "HOL-Library.AList" "HOL-Library.List_Lexorder" "HOL-Library.Char_ord"
    "HOL-Library.Multiset"
begin

section \<open>The order book of \<^verbatim>\<open>ALL_SHARES/bookdata.js\<close>\<close>

text \<open>
  The class \<^verbatim>\<open>BookData\<close> stores one level record per venue and depth index on each
  side of the book, sorts and (optionally) aggregates them on \<^verbatim>\<open>redisplay\<close>, and
  derives the volume weighted prices VBBO and VWAP.

  Conventions of the embedding.
  \<^item> A JavaScript number that the feed supplies is an exact \<^typ>\<open>real\<close> (a price) or an
    \<^typ>\<open>int\<close> (a quantity, a depth index, a side constant): rounding of doubles is not
    part of the model. The only place where the source can leave the finite numbers is
    the division of the weighted prices, so a computed price is a \<open>jsnum\<close>.
  \<^item> Level records are objects that the side mappings, the aggregation and the sorted
    arrays share. They live in an explicit store \<open>heap\<close>, a function from addresses to
    records; \<open>nextRef\<close> is the first address that no object has.
  \<^item> A JavaScript object used as a dictionary with string keys enumerates its keys in
    insertion order, so it is an association list with distinct keys:
    \<open>AList.update\<close> is the assignment \<^verbatim>\<open>o[k] = v\<close>, \<open>AList.delete\<close> is
    \<^verbatim>\<open>delete o[k]\<close> and \<open>map_of\<close> is the lookup.
  \<^item> \<^verbatim>\<open>Formatter_MarketPrices\<close>, \<^verbatim>\<open>Converter\<close> and the callback are not part of the
    file. The four reserved prices and the two converters are parameters (\<open>env\<close>), and
    so is \<^verbatim>\<open>Array.prototype.sort\<close>, whose result under an inconsistent comparator is
    left open by the language.
\<close>

subsection \<open>Numbers and comparator results\<close>

datatype jsnum = Finite real | NonFinite

text \<open>\<^verbatim>\<open>n / d\<close>: a division by zero gives an infinity or NaN, never an exception.\<close>

definition js_div :: "real \<Rightarrow> real \<Rightarrow> jsnum" where
  "js_div n d = (if d = 0 then NonFinite else Finite (n / d))"

text \<open>A comparator of the source returns a number or, from \<^verbatim>\<open>compareCommon\<close>, a boolean.
  The sort reads it through the coercion \<^verbatim>\<open>ToNumber\<close>.\<close>

datatype jsval = JNumber real | JBoolean bool

fun ToNumber :: "jsval \<Rightarrow> real" where
  "ToNumber (JNumber x) = x"
| "ToNumber (JBoolean b) = (if b then 1 else 0)"

text \<open>\<^verbatim>\<open>x.toFixed(4)\<close> for \<open>\<bar>x\<bar> < 10\<^sup>2\<^sup>1\<close>: a minus sign when \<open>x < 0\<close>, then the integer
  \<open>n\<close> nearest to \<open>\<bar>x\<bar> \<cdot> 10\<^sup>4\<close> (the larger one of two) printed with four decimals. The
  text is determined by the sign and \<open>n\<close>, so the pair stands for it; the text
  \<^verbatim>\<open>-0.0000\<close> differs from \<^verbatim>\<open>0.0000\<close>.\<close>

type_synonym fixed4 = "bool \<times> int"

definition toFixed4 :: "real \<Rightarrow> fixed4" where
  "toFixed4 x = (x < 0, \<lfloor>\<bar>x\<bar> * 10000 + 1 / 2\<rfloor>)"

text \<open>\<^verbatim>\<open>parseInt(q)\<close> of a number reads the integer at the head of the text of \<open>q\<close>. An
  integer below \<open>10\<^sup>2\<^sup>1\<close> in absolute value is written with all its digits, so the result
  is \<open>q\<close>; from \<open>10\<^sup>2\<^sup>1\<close> on the text is in exponent notation (\<^verbatim>\<open>1e+21\<close>, \<^verbatim>\<open>-2.5e+22\<close>)
  and the result is the leading digit with the sign.\<close>

function leadingDigit :: "nat \<Rightarrow> nat" where
  "leadingDigit n = (if n < 10 then n else leadingDigit (n div 10))"
  by pat_completeness auto
termination
  by (relation "measure (\<lambda>n. n)") auto

declare leadingDigit.simps [simp del]

definition parseInt :: "int \<Rightarrow> int" where
  "parseInt q =
     (if \<bar>q\<bar> < 1000000000000000000000 then q else sgn q * int (leadingDigit (nat \<bar>q\<bar>)))"

subsection \<open>Level records, the environment and the book\<close>

type_synonym ref = nat

text \<open>The composite key is \<^verbatim>\<open>JSON.stringify\<close> of the object \<^verbatim>\<open>{venue: level}\<close>, a text
  that determines and is determined by the pair.\<close>

type_synonym rowkey = "string \<times> int"

record row =
  price :: real
  qty :: int
  venue :: string
  vbbo :: jsnum
  cumQty :: int
  key :: rowkey

record env =
  BID :: real
  OFFER :: real
  UNKNOWN_BID :: real
  UNKNOWN_OFFER :: real
  toFloat :: "real \<Rightarrow> real"
  toInt :: "int \<Rightarrow> int"
  arraySort :: "(ref \<Rightarrow> ref \<Rightarrow> real) \<Rightarrow> ref list \<Rightarrow> ref list"

record book =
  heap :: "ref \<Rightarrow> row"
  nextRef :: ref
  buySide :: "(rowkey \<times> ref) list"
  sellSide :: "(rowkey \<times> ref) list"
  sortedBuy :: "ref list"
  sortedSell :: "ref list"

definition BUY_SIDE :: int where
  "BUY_SIDE = 1"

definition SELL_SIDE :: int where
  "SELL_SIDE = 2"

definition createKeyData :: "string \<Rightarrow> int \<Rightarrow> rowkey" where
  "createKeyData v lvl = (v, lvl)"

definition createRow :: "real \<Rightarrow> int \<Rightarrow> string \<Rightarrow> int \<Rightarrow> row" where
  "createRow p q v lvl =
     \<lparr>price = p, qty = q, venue = v, vbbo = Finite 0, cumQty = 0, key = createKeyData v lvl\<rparr>"

text \<open>The constructor: both sides and both sorted arrays are empty. No reference
  exists yet; the content of the store at addresses never allocated is immaterial.\<close>

definition BookData :: book where
  "BookData =
     \<lparr>heap = (\<lambda>_. createRow 0 0 [] 0), nextRef = 0,
      buySide = [], sellSide = [], sortedBuy = [], sortedSell = []\<rparr>"

subsection \<open>Storing a level\<close>

text \<open>\<^verbatim>\<open>_setSideData\<close>: the row \<open>newRow\<close> is the object at address \<open>r\<close>.\<close>

definition setSideData :: "(rowkey \<times> ref) list \<Rightarrow> row \<Rightarrow> ref \<Rightarrow> (rowkey \<times> ref) list" where
  "setSideData sideData newRow r =
     (if qty newRow = 0 then AList.delete (key newRow) sideData
      else AList.update (key newRow) r sideData)"

definition updateBook :: "int \<Rightarrow> int \<Rightarrow> int \<Rightarrow> real \<Rightarrow> string \<Rightarrow> book \<Rightarrow> book" where
  "updateBook lvl sd q p v b =
     (let newRow = createRow p q v lvl;
          r = nextRef b;
          b1 = b\<lparr>heap := (heap b)(r := newRow), nextRef := r + 1\<rparr>
      in if sd = BUY_SIDE then b1\<lparr>buySide := setSideData (buySide b) newRow r\<rparr>
         else b1\<lparr>sellSide := setSideData (sellSide b) newRow r\<rparr>)"

definition resetData :: "book \<Rightarrow> book" where
  "resetData b = b\<lparr>buySide := [], sellSide := [], sortedBuy := [], sortedSell := []\<rparr>"

subsection \<open>The comparators\<close>

text \<open>\<^verbatim>\<open>BookData.compareCommon\<close>. The last branch returns the boolean
  \<^verbatim>\<open>lhs.venue < rhs.venue\<close>, the comparison of strings by code units.\<close>

definition compareCommon :: "row \<Rightarrow> row \<Rightarrow> jsval" where
  "compareCommon lhs rhs =
     (let result = qty rhs - qty lhs
      in if 0 = result then
           (if venue lhs = ''XEQT'' then JNumber (- 1)
            else if venue rhs = ''XEQT'' then JNumber 1
            else JBoolean (venue lhs < venue rhs))
         else JNumber (of_int result))"

definition compareBuy :: "row \<Rightarrow> row \<Rightarrow> jsval" where
  "compareBuy lhs rhs =
     (if 0 = price lhs \<and> 0 = price rhs then compareCommon lhs rhs
      else if 0 = price lhs then JNumber (- 1)
      else if 0 = price rhs then JNumber 1
      else (let result = price rhs - price lhs
            in if 0 = result then compareCommon lhs rhs else JNumber result))"

definition compareSell :: "row \<Rightarrow> row \<Rightarrow> jsval" where
  "compareSell lhs rhs =
     (let result = price lhs - price rhs
      in if 0 = result then compareCommon lhs rhs else JNumber result)"

text \<open>\<^verbatim>\<open>_sortValues\<close>: the values of the object in key order, sorted by the comparator
  applied to the objects the references point to.\<close>

definition sortValues ::
  "env \<Rightarrow> (ref \<Rightarrow> row) \<Rightarrow> (rowkey \<times> ref) list \<Rightarrow> (row \<Rightarrow> row \<Rightarrow> jsval) \<Rightarrow> ref list" where
  "sortValues e h dataObject compare =
     arraySort e (\<lambda>a b. ToNumber (compare (h a) (h b))) (map snd dataObject)"

subsection \<open>The market order checker\<close>

record VBBOMarkerOrderChecker =
  isMarkerOrder :: bool
  isBidMarkerOrder :: bool
  hasMarkerOrder :: bool

definition new_VBBOMarkerOrderChecker :: VBBOMarkerOrderChecker where
  "new_VBBOMarkerOrderChecker =
     \<lparr>isMarkerOrder = False, isBidMarkerOrder = False, hasMarkerOrder = False\<rparr>"

text \<open>The \<^verbatim>\<open>switch\<close> compares with \<^verbatim>\<open>===\<close> and takes the first case that matches.\<close>

definition checkMarketOrder :: "env \<Rightarrow> real \<Rightarrow> VBBOMarkerOrderChecker \<Rightarrow> VBBOMarkerOrderChecker" where
  "checkMarketOrder e p c =
     (if p = BID e then
        c\<lparr>isMarkerOrder := True, isBidMarkerOrder := True, hasMarkerOrder := True\<rparr>
      else if p = OFFER e then
        c\<lparr>isMarkerOrder := True, isBidMarkerOrder := False, hasMarkerOrder := True\<rparr>
      else c\<lparr>isMarkerOrder := False\<rparr>)"

definition calculateRowPrice :: "env \<Rightarrow> VBBOMarkerOrderChecker \<Rightarrow> real \<Rightarrow> real \<Rightarrow> int \<Rightarrow> jsnum" where
  "calculateRowPrice e c p numerator denominator =
     (if hasMarkerOrder c then
        (if isMarkerOrder c then Finite p
         else (if isBidMarkerOrder c then Finite (UNKNOWN_BID e) else Finite (UNKNOWN_OFFER e)))
      else (if denominator > 0 then js_div numerator (of_int denominator) else Finite 0))"

definition calculatePrice :: "env \<Rightarrow> VBBOMarkerOrderChecker \<Rightarrow> real \<Rightarrow> int \<Rightarrow> jsnum" where
  "calculatePrice e c numerator denominator =
     (if hasMarkerOrder c then
        (if isBidMarkerOrder c then Finite (BID e) else Finite (OFFER e))
      else (if denominator > 0 then js_div numerator (of_int denominator) else Finite 0))"

subsection \<open>VBBO\<close>

text \<open>The body of the \<^verbatim>\<open>forEach\<close> of \<^verbatim>\<open>_calculateVBBO\<close>, with the checker and the two
  running sums \<^verbatim>\<open>value\<close> (here \<open>val\<close>) and \<^verbatim>\<open>cumQty\<close> (here \<open>cum\<close>) as arguments.
  Each row is written in place.\<close>

fun calculateVBBO_rows ::
  "env \<Rightarrow> ref list \<Rightarrow> (ref \<Rightarrow> row) \<Rightarrow> VBBOMarkerOrderChecker \<Rightarrow> real \<Rightarrow> int \<Rightarrow> (ref \<Rightarrow> row)" where
  "calculateVBBO_rows e [] h c val cum = h"
| "calculateVBBO_rows e (r # rs) h c val cum =
     (let p = toFloat e (price (h r));
          quantity = toInt e (qty (h r));
          c' = checkMarketOrder e p c;
          cum' = cum + quantity;
          val' = val + p * of_int quantity;
          h' = h(r := (h r)\<lparr>cumQty := cum', vbbo := calculateRowPrice e c' p val' cum'\<rparr>)
      in calculateVBBO_rows e rs h' c' val' cum')"

text \<open>The first argument of the source, the side storage, is never read.\<close>

definition calculateVBBO :: "env \<Rightarrow> (rowkey \<times> ref) list \<Rightarrow> ref list \<Rightarrow> (ref \<Rightarrow> row) \<Rightarrow> (ref \<Rightarrow> row)" where
  "calculateVBBO e sd sortedArray h =
     calculateVBBO_rows e sortedArray h new_VBBOMarkerOrderChecker 0 0"

subsection \<open>VWAP\<close>

record vwap_result =
  vwap_qty :: int
  vwap_price :: jsnum
  vwap_level :: int

text \<open>The \<^verbatim>\<open>for\<close> loop of \<^verbatim>\<open>_calculateVwapForQty\<close> from \<open>index\<close> on; \<open>rows\<close> are the
  elements of the array from that index. The source's test \<^verbatim>\<open>rowPrice !== NaN\<close> is
  true of every number, NaN included, and so is no condition.\<close>

fun vwap_loop ::
  "env \<Rightarrow> (ref \<Rightarrow> row) \<Rightarrow> ref list \<Rightarrow> int \<Rightarrow> int \<Rightarrow> int \<Rightarrow> real \<Rightarrow> int \<Rightarrow> VBBOMarkerOrderChecker
     \<Rightarrow> int \<times> real \<times> int \<times> VBBOMarkerOrderChecker" where
  "vwap_loop e h [] index remaining used val lvl c = (used, val, lvl, c)"
| "vwap_loop e h (r # rows) index remaining used val lvl c =
     (let rowQty = toInt e (qty (h r));
          rowPrice = toFloat e (price (h r));
          c' = checkMarketOrder e rowPrice c
      in if remaining > 0 \<and> rowQty > 0 then
           (let qtyAdjust = (if remaining > rowQty then rowQty else remaining)
            in vwap_loop e h rows (index + 1) (remaining - qtyAdjust) (used + qtyAdjust)
                 (val + of_int qtyAdjust * rowPrice) index c')
         else vwap_loop e h rows (index + 1) remaining used val lvl c')"

definition calculateVwapForQty :: "env \<Rightarrow> int \<Rightarrow> ref list \<Rightarrow> (ref \<Rightarrow> row) \<Rightarrow> vwap_result" where
  "calculateVwapForQty e q sortedArray h =
     (case vwap_loop e h sortedArray 0 q 0 0 (- 1) new_VBBOMarkerOrderChecker of
        (used, val, lvl, c) \<Rightarrow>
          \<lparr>vwap_qty = used, vwap_price = calculatePrice e c val used, vwap_level = lvl\<rparr>)"

record vwap_update =
  vwap :: string
  requested :: int
  buyQty :: int
  buyPrice :: jsnum
  buyLevel :: int
  sellQty :: int
  sellPrice :: jsnum
  sellLevel :: int

text \<open>\<^verbatim>\<open>getVwapUpdate\<close>; the field \<^verbatim>\<open>qty\<close> of the result is \<open>requested\<close> here.\<close>

definition getVwapUpdate :: "env \<Rightarrow> string \<Rightarrow> int \<Rightarrow> book \<Rightarrow> vwap_update" where
  "getVwapUpdate e vwapName q b =
     (let buyVwap = calculateVwapForQty e q (sortedBuy b) (heap b);
          sellVwap = calculateVwapForQty e q (sortedSell b) (heap b)
      in \<lparr>vwap = vwapName, requested = q,
          buyQty = vwap_qty buyVwap, buyPrice = vwap_price buyVwap, buyLevel = vwap_level buyVwap,
          sellQty = vwap_qty sellVwap, sellPrice = vwap_price sellVwap,
          sellLevel = vwap_level sellVwap\<rparr>)"

subsection \<open>Aggregation\<close>

text \<open>One turn of the first loop of \<^verbatim>\<open>_aggregate\<close>, at the entry of the side whose value
  is the object \<open>r\<close>. \<open>byPriceMap\<close> maps the rounded price to the object that seeds the
  group; the assignments go to that object itself.\<close>

definition aggregate_step ::
  "env \<Rightarrow> ref \<Rightarrow> (ref \<Rightarrow> row) \<times> (fixed4 \<times> ref) list \<Rightarrow> (ref \<Rightarrow> row) \<times> (fixed4 \<times> ref) list" where
  "aggregate_step e r hm =
     (case hm of (h, byPriceMap) \<Rightarrow>
        (let roundedPrice = toFixed4 (toFloat e (price (h r)))
         in case map_of byPriceMap roundedPrice of
              None \<Rightarrow>
                (h(r := (h r)\<lparr>qty := parseInt (qty (h r))\<rparr>), AList.update roundedPrice r byPriceMap)
            | Some s \<Rightarrow>
                (let h1 = h(s := (h s)\<lparr>qty := qty (h s) + parseInt (qty (h r))\<rparr>);
                     h2 = h1(s := (h1 s)\<lparr>cumQty := cumQty (h1 s) + cumQty (h1 r)\<rparr>);
                     h3 = (if venue (h2 s) = [] then h2(s := (h2 s)\<lparr>key := key (h2 r)\<rparr>) else h2)
                 in (h3, byPriceMap))))"

text \<open>One turn of the second loop: the venue is cleared in place and the object is
  filed under its own \<^verbatim>\<open>key\<close> field.\<close>

definition transpose_step ::
  "ref \<Rightarrow> (ref \<Rightarrow> row) \<times> (rowkey \<times> ref) list \<Rightarrow> (ref \<Rightarrow> row) \<times> (rowkey \<times> ref) list" where
  "transpose_step s hr =
     (case hr of (h, result) \<Rightarrow>
        (let h1 = h(s := (h s)\<lparr>venue := []\<rparr>)
         in (h1, AList.update (key (h1 s)) s result)))"

definition aggregate ::
  "env \<Rightarrow> (rowkey \<times> ref) list \<Rightarrow> (ref \<Rightarrow> row) \<Rightarrow> (ref \<Rightarrow> row) \<times> (rowkey \<times> ref) list" where
  "aggregate e sd h =
     (case fold (aggregate_step e) (map snd sd) (h, []) of
        (h1, byPriceMap) \<Rightarrow> fold transpose_step (map snd byPriceMap) (h1, []))"

subsection \<open>The display pass\<close>

text \<open>\<^verbatim>\<open>Number(t)\<close> of a text that \<^verbatim>\<open>toFixed(4)\<close> produced, and \<^verbatim>\<open>Number(x).toFixed(4)\<close> of
  a computed price (\<open>None\<close> stands for the texts of the non-finite numbers).\<close>

definition Number_of_fixed4 :: "fixed4 \<Rightarrow> real" where
  "Number_of_fixed4 t = (if fst t then - (of_int (snd t) / 10000) else of_int (snd t) / 10000)"

definition toFixed4_jsnum :: "jsnum \<Rightarrow> fixed4 option" where
  "toFixed4_jsnum x = (case x of Finite y \<Rightarrow> Some (toFixed4 y) | NonFinite \<Rightarrow> None)"

record update_obj =
  upd_level :: nat
  upd_side :: int
  upd_qty :: int
  upd_price :: fixed4
  upd_venue :: string
  upd_cumQty :: int
  upd_vbbo :: "fixed4 option"

text \<open>\<^verbatim>\<open>BookData.createUpdateObj\<close>; its argument \<open>p\<close> is the text that
  \<^verbatim>\<open>_redisplaySide\<close> made of the price.\<close>

definition createUpdateObj ::
  "nat \<Rightarrow> int \<Rightarrow> int \<Rightarrow> fixed4 \<Rightarrow> string \<Rightarrow> int \<Rightarrow> jsnum \<Rightarrow> update_obj" where
  "createUpdateObj lvl sd q p v cum vb =
     \<lparr>upd_level = lvl, upd_side = sd, upd_qty = q, upd_price = toFixed4 (Number_of_fixed4 p),
      upd_venue = v, upd_cumQty = cum, upd_vbbo = toFixed4_jsnum vb\<rparr>"

text \<open>What the pass does to its collaborators: the calls of the callback, in order, and
  the notification at the end.\<close>

datatype callback_event = ResetWithCount nat | UpdateBookCall update_obj | OnRedisplay

definition redisplaySide :: "(ref \<Rightarrow> row) \<Rightarrow> ref list \<Rightarrow> int \<Rightarrow> callback_event list" where
  "redisplaySide h sortedArray sd =
     map (\<lambda>(rowCount, r).
            UpdateBookCall
              (createUpdateObj rowCount sd (qty (h r)) (toFixed4 (price (h r))) (venue (h r))
                 (cumQty (h r)) (vbbo (h r))))
       (enumerate 0 sortedArray)"

definition redisplay :: "env \<Rightarrow> bool \<Rightarrow> book \<Rightarrow> book \<times> callback_event list" where
  "redisplay e consolidated b =
     (case (if consolidated then aggregate e (buySide b) (heap b) else (heap b, buySide b)) of
        (h1, buyData) \<Rightarrow>
     (let sortedBuy1 = sortValues e h1 buyData compareBuy
      in case (if consolidated then aggregate e (sellSide b) h1 else (h1, sellSide b)) of
        (h2, sellData) \<Rightarrow>
     (let sortedSell1 = sortValues e h2 sellData compareSell;
          sortedBuy2 = (if consolidated \<and> length sortedBuy1 > 5 then take 5 sortedBuy1
                        else take (length sortedBuy1) sortedBuy1);
          sortedSell2 = (if consolidated \<and> length sortedSell1 > 5 then take 5 sortedSell1
                         else take (length sortedSell1) sortedSell1);
          h3 = calculateVBBO e (buySide b) sortedBuy2 h2;
          h4 = calculateVBBO e (sellSide b) sortedSell2 h3;
          rows = (if length sortedBuy2 > length sortedSell2 then length sortedBuy2
                  else length sortedSell2)
      in (b\<lparr>heap := h4, sortedBuy := sortedBuy2, sortedSell := sortedSell2\<rparr>,
          ResetWithCount rows # redisplaySide h4 sortedBuy2 BUY_SIDE
            @ redisplaySide h4 sortedSell2 SELL_SIDE @ [OnRedisplay]))))"

subsection \<open>Sequences of calls\<close>

datatype command =
  UpdateBook int int int real string
| Redisplay bool
| ResetData

fun exec :: "env \<Rightarrow> command \<Rightarrow> book \<Rightarrow> book" where
  "exec e (UpdateBook lvl sd q p v) b = updateBook lvl sd q p v b"
| "exec e (Redisplay consolidated) b = fst (redisplay e consolidated b)"
| "exec e ResetData b = resetData b"

definition run :: "env \<Rightarrow> command list \<Rightarrow> book \<Rightarrow> book" where
  "run e cmds b = fold (exec e) cmds b"

fun is_update :: "command \<Rightarrow> bool" where
  "is_update (UpdateBook lvl sd q p v) = True"
| "is_update _ = False"

fun is_redisplay :: "command \<Rightarrow> bool" where
  "is_redisplay (Redisplay consolidated) = True"
| "is_redisplay _ = False"

text \<open>An insertion sort that reads the comparator as the language prescribes (a
  positive result puts the right argument first): one admissible
  \<^verbatim>\<open>Array.prototype.sort\<close>, used to run the model on examples.\<close>

fun insert_by :: "(ref \<Rightarrow> ref \<Rightarrow> real) \<Rightarrow> ref \<Rightarrow> ref list \<Rightarrow> ref list" where
  "insert_by cmp x [] = [x]"
| "insert_by cmp x (y # ys) = (if cmp x y > 0 then y # insert_by cmp x ys else x # y # ys)"

definition insertion_sort :: "(ref \<Rightarrow> ref \<Rightarrow> real) \<Rightarrow> ref list \<Rightarrow> ref list" where
  "insertion_sort cmp xs = foldr (insert_by cmp) xs []"

text \<open>Whatever the comparator, a \<^verbatim>\<open>sort\<close> returns the elements of the array, each as
  often as the array holds it; only their order is left to the implementation when
  the comparator is inconsistent.\<close>

definition sort_permutes :: "env \<Rightarrow> bool" where
  "sort_permutes e = (\<forall>cmp xs. mset (arraySort e cmp xs) = mset xs)"

text \<open>An environment for examples: four distinct reserved prices (the comments of the
  source name \<open>999999.0000\<close> and zero as prices of market orders) and converters that
  leave numbers alone.\<close>

definition example_env :: env where
  "example_env =
     \<lparr>BID = 999999, OFFER = 0, UNKNOWN_BID = 999998, UNKNOWN_OFFER = - 1,
      toFloat = (\<lambda>x. x), toInt = (\<lambda>n. n), arraySort = insertion_sort\<rparr>"

subsection \<open>Notions used to state the properties\<close>

text \<open>The side that \<^verbatim>\<open>updateBook\<close> selects for a side constant: every constant but
  \<open>BUY_SIDE\<close> selects the sell side.\<close>

definition sideOf :: "int \<Rightarrow> book \<Rightarrow> (rowkey \<times> ref) list" where
  "sideOf sd b = (if sd = BUY_SIDE then buySide b else sellSide b)"

text \<open>A price is a marker when one of the two cases of the \<^verbatim>\<open>switch\<close> matches it.\<close>

definition is_marker :: "env \<Rightarrow> real \<Rightarrow> bool" where
  "is_marker e p = (p = BID e \<or> p = OFFER e)"

text \<open>The price and the quantity that the two passes read of a row:
  \<^verbatim>\<open>Converter.toFloat(row.price)\<close> and \<^verbatim>\<open>Converter.toInt(row.qty)\<close>.\<close>

definition rowPrice :: "env \<Rightarrow> (ref \<Rightarrow> row) \<Rightarrow> ref \<Rightarrow> real" where
  "rowPrice e h r = toFloat e (price (h r))"

definition rowQty :: "env \<Rightarrow> (ref \<Rightarrow> row) \<Rightarrow> ref \<Rightarrow> int" where
  "rowQty e h r = toInt e (qty (h r))"

text \<open>The checker after it has been shown the prices \<open>ps\<close> in order.\<close>

definition observe :: "env \<Rightarrow> real list \<Rightarrow> VBBOMarkerOrderChecker \<Rightarrow> VBBOMarkerOrderChecker" where
  "observe e ps c = fold (checkMarketOrder e) ps c"

text \<open>The fill of each level as the specification words it: walking the levels from the
  best one, a level of positive quantity gives the smaller of the quantity still
  requested and its own quantity; a level reached with nothing left, or of no positive
  quantity, gives nothing.\<close>

fun fills :: "int \<Rightarrow> int list \<Rightarrow> int list" where
  "fills remaining [] = []"
| "fills remaining (x # xs) =
     (if remaining > 0 \<and> x > 0 then min remaining x # fills (remaining - min remaining x) xs
      else 0 # fills remaining xs)"

text \<open>The index of the last level that gave a fill, \<open>-1\<close> when none did, and the
  notional of the fills at the prices of their levels.\<close>

definition last_contributing :: "int list \<Rightarrow> int" where
  "last_contributing fs =
     (if \<forall>f\<in>set fs. f \<le> 0 then - 1 else int (last (filter (\<lambda>i. fs ! i > 0) [0..<length fs])))"

definition notional :: "int list \<Rightarrow> real list \<Rightarrow> real" where
  "notional fs ps = sum_list (map (\<lambda>(f, p). of_int f * p) (zip fs ps))"

text \<open>The level variable of the loop over a list of fills, from the index \<open>idx\<close> on.\<close>

fun last_fill :: "int \<Rightarrow> int \<Rightarrow> int list \<Rightarrow> int" where
  "last_fill idx lvl [] = lvl"
| "last_fill idx lvl (f # fs) = last_fill (idx + 1) (if f > 0 then idx else lvl) fs"

text \<open>The text that \<^verbatim>\<open>_aggregate\<close> groups a row under, and the rows of a list that are
  grouped under the text \<open>k\<close>.\<close>

definition roundedPrice :: "env \<Rightarrow> (ref \<Rightarrow> row) \<Rightarrow> ref \<Rightarrow> fixed4" where
  "roundedPrice e h r = toFixed4 (toFloat e (price (h r)))"

definition group :: "env \<Rightarrow> (ref \<Rightarrow> row) \<Rightarrow> fixed4 \<Rightarrow> ref list \<Rightarrow> ref list" where
  "group e h k rs = filter (\<lambda>r. roundedPrice e h r = k) rs"

text \<open>A side (or a map that the aggregation returned) is fully consolidated when it has
  one entry for each rounded price and every entry carries the empty venue; its
  entries are stored under their own key when the \<^verbatim>\<open>key\<close> field of every object is the
  key that maps to it. \<open>price_qty_pairs\<close> is the set of pairs of price and quantity of
  its entries.\<close>

definition fully_consolidated :: "env \<Rightarrow> (ref \<Rightarrow> row) \<Rightarrow> (rowkey \<times> ref) list \<Rightarrow> bool" where
  "fully_consolidated e h sd \<longleftrightarrow>
     distinct (map fst sd) \<and> distinct (map (\<lambda>(k, r). roundedPrice e h r) sd) \<and>
     (\<forall>(k, r)\<in>set sd. venue (h r) = [])"

definition stored_under_own_key :: "(ref \<Rightarrow> row) \<Rightarrow> (rowkey \<times> ref) list \<Rightarrow> bool" where
  "stored_under_own_key h sd \<longleftrightarrow> (\<forall>(k, r)\<in>set sd. key (h r) = k)"

definition price_qty_pairs :: "(ref \<Rightarrow> row) \<Rightarrow> (rowkey \<times> ref) list \<Rightarrow> (real \<times> int) set" where
  "price_qty_pairs h sd = (\<lambda>(k, r). (price (h r), qty (h r))) ` set sd"

text \<open>What every book that the calls produce satisfies: the two sides hold distinct
  keys and distinct objects, and every reference is an allocated one.\<close>

definition wf_book :: "book \<Rightarrow> bool" where
  "wf_book b \<longleftrightarrow>
     distinct (map snd (buySide b) @ map snd (sellSide b)) \<and>
     distinct (map fst (buySide b)) \<and> distinct (map fst (sellSide b)) \<and>
     (\<forall>r\<in>snd ` set (buySide b) \<union> snd ` set (sellSide b) \<union> set (sortedBuy b) \<union> set (sortedSell b).
        r < nextRef b)"

text \<open>The calls of the callback that display a row.\<close>

fun is_row_call :: "callback_event \<Rightarrow> bool" where
  "is_row_call (UpdateBookCall u) = True"
| "is_row_call _ = False"

text \<open>The quote over two empty snapshots.\<close>

definition empty_quote :: "string \<Rightarrow> int \<Rightarrow> vwap_update" where
  "empty_quote vwapName q =
     \<lparr>vwap = vwapName, requested = q, buyQty = 0, buyPrice = Finite 0, buyLevel = - 1,
      sellQty = 0, sellPrice = Finite 0, sellLevel = - 1\<rparr>"

subsection \<open>Example books\<close>

text \<open>A bid side with a level at each marker price and one priced level, before and
  after an unconsolidated display pass.\<close>

definition mixed_marker_updates :: book where
  "mixed_marker_updates =
     updateBook 3 1 10 5 ''C'' (updateBook 2 1 10 999999 ''B'' (updateBook 1 1 10 0 ''A'' BookData))"

definition mixed_marker_book :: book where
  "mixed_marker_book = fst (redisplay example_env False mixed_marker_updates)"

text \<open>An offer side whose second level carries a marker price.\<close>

definition late_marker_book :: book where
  "late_marker_book =
     fst (redisplay example_env False
       (updateBook 2 2 10 999999 ''B'' (updateBook 1 2 10 5 ''A'' BookData)))"

text \<open>The bid side of the specification's example of a partial fill.\<close>

definition partial_fill_book :: book where
  "partial_fill_book =
     fst (redisplay example_env False
       (updateBook 2 1 10 99 ''A'' (updateBook 1 1 10 100 ''A'' BookData)))"

text \<open>Six bid levels and one offer level.\<close>

definition deep_book :: book where
  "deep_book = run example_env
     [UpdateBook 1 1 10 100 ''A'', UpdateBook 2 1 10 99 ''A'', UpdateBook 3 1 10 98 ''A'',
      UpdateBook 4 1 10 97 ''A'', UpdateBook 5 1 10 96 ''A'', UpdateBook 6 1 10 95 ''A'',
      UpdateBook 1 2 10 101 ''A''] BookData"

text \<open>Two venues at one bid price.\<close>

definition two_venue_book :: book where
  "two_venue_book = run example_env [UpdateBook 1 1 5 10 ''A'', UpdateBook 1 1 3 10 ''B''] BookData"

text \<open>The same two venues displayed consolidated twice, then venue \<open>B\<close> moving to another
  price, and a third consolidated display.\<close>

definition collide_book :: book where
  "collide_book = run example_env
     [UpdateBook 1 1 5 10 ''A'', UpdateBook 1 1 3 10 ''B'', Redisplay True, Redisplay True,
      UpdateBook 1 1 3 11 ''B'', Redisplay True] BookData"

text \<open>One bid level, displayed.\<close>

definition stale_quote_cmds :: "command list" where
  "stale_quote_cmds = [UpdateBook 1 1 10 100 ''A'', Redisplay False]"

section \<open>Running the model on the example books\<close>

text \<open>Evaluation of the model on the example books unfolds these definitions.\<close>

lemmas eval_defs = redisplay_def updateBook_def BookData_def setSideData_def createRow_def
  createKeyData_def sortValues_def example_env_def insertion_sort_def compareBuy_def
  compareSell_def compareCommon_def calculateVBBO_def checkMarketOrder_def
  calculateRowPrice_def new_VBBOMarkerOrderChecker_def BUY_SIDE_def SELL_SIDE_def Let_def
  js_div_def rowPrice_def rowQty_def is_marker_def

lemmas eval_more = run_def aggregate_def aggregate_step_def transpose_step_def toFixed4_def
  parseInt_def redisplaySide_def createUpdateObj_def Number_of_fixed4_def toFixed4_jsnum_def

section \<open>The tie-break comparator\<close>

text \<open>
  Claim C3. \<open>compareCommon\<close> puts the larger quantity first (a negative result exactly
  when the left quantity is larger). At equal quantities a left level of the venue
  \<open>XEQT\<close> gets \<open>-1\<close> and, failing that, a right level of that venue gets \<open>1\<close>, whatever
  the other venue is. For two other venues the result is the boolean of
  \<open>venue lhs < venue rhs\<close>: read as a number it is \<open>1\<close> when the left venue is the
  smaller one and \<open>0\<close> otherwise, never a negative number.
\<close>

theorem compareCommon_tie_break:
  "(qty lhs \<noteq> qty rhs \<longrightarrow>
      compareCommon lhs rhs = JNumber (of_int (qty rhs - qty lhs)) \<and>
      (ToNumber (compareCommon lhs rhs) < 0 \<longleftrightarrow> qty rhs < qty lhs)) \<and>
   (qty lhs = qty rhs \<and> venue lhs = ''XEQT'' \<longrightarrow> compareCommon lhs rhs = JNumber (- 1)) \<and>
   (qty lhs = qty rhs \<and> venue lhs \<noteq> ''XEQT'' \<and> venue rhs = ''XEQT'' \<longrightarrow>
      compareCommon lhs rhs = JNumber 1) \<and>
   (qty lhs = qty rhs \<and> venue lhs \<noteq> ''XEQT'' \<and> venue rhs \<noteq> ''XEQT'' \<longrightarrow>
      compareCommon lhs rhs = JBoolean (venue lhs < venue rhs) \<and>
      ToNumber (compareCommon lhs rhs) = (if venue lhs < venue rhs then 1 else 0) \<and>
      \<not> ToNumber (compareCommon lhs rhs) < 0)"
  by (simp add: compareCommon_def Let_def)

theorem compareCommon_tie_break_witness:
  "compareCommon (createRow 10 200 ''X'' 1) (createRow 10 100 ''X'' 2) = JNumber (- 100) \<and>
   compareCommon (createRow 10 100 ''XEQT'' 1) (createRow 10 100 ''AAAA'' 1) = JNumber (- 1) \<and>
   compareCommon (createRow 10 100 ''ZZZZ'' 1) (createRow 10 100 ''XEQT'' 1) = JNumber 1 \<and>
   ToNumber (compareCommon (createRow 10 100 ''AAAA'' 1) (createRow 10 100 ''BBBB'' 1)) = 1 \<and>
   ToNumber (compareCommon (createRow 10 100 ''BBBB'' 1) (createRow 10 100 ''AAAA'' 1)) = 0"
  using compareCommon_tie_break [of "createRow 10 200 ''X'' 1" "createRow 10 100 ''X'' 2"]
    compareCommon_tie_break [of "createRow 10 100 ''XEQT'' 1" "createRow 10 100 ''AAAA'' 1"]
    compareCommon_tie_break [of "createRow 10 100 ''ZZZZ'' 1" "createRow 10 100 ''XEQT'' 1"]
    compareCommon_tie_break [of "createRow 10 100 ''AAAA'' 1" "createRow 10 100 ''BBBB'' 1"]
    compareCommon_tie_break [of "createRow 10 100 ''BBBB'' 1" "createRow 10 100 ''AAAA'' 1"]
  by (simp add: createRow_def)

section \<open>Storing and removing a level\<close>

text \<open>
  Claim C7. On the side it selects, \<open>updateBook\<close> with quantity \<open>0\<close> leaves no entry
  under the composite key of the venue and depth index, whatever the price, and
  leaves every other key as it was. With a positive quantity the key holds the new row
  afterwards, at every price (the price \<open>0\<close> included), also when an update with
  quantity \<open>0\<close> has just removed the entry.
\<close>

theorem updateBook_zero_quantity_removes:
  "map_of (sideOf sd (updateBook lvl sd 0 p v b)) (createKeyData v lvl) = None \<and>
   (\<forall>k. k \<noteq> createKeyData v lvl \<longrightarrow>
      map_of (sideOf sd (updateBook lvl sd 0 p v b)) k = map_of (sideOf sd b) k) \<and>
   (0 < q \<longrightarrow>
      (\<exists>r. map_of (sideOf sd (updateBook lvl sd q p v b)) (createKeyData v lvl) = Some r \<and>
           heap (updateBook lvl sd q p v b) r = createRow p q v lvl) \<and>
      (\<exists>r. map_of (sideOf sd (updateBook lvl sd q p v (updateBook lvl sd 0 p' v b)))
             (createKeyData v lvl) = Some r \<and>
           heap (updateBook lvl sd q p v (updateBook lvl sd 0 p' v b)) r = createRow p q v lvl))"
  by (simp add: sideOf_def updateBook_def setSideData_def createRow_def Let_def
      AList.update_conv' AList.delete_conv')

theorem updateBook_zero_quantity_removes_witness:
  "map_of (sideOf 1 (updateBook 3 1 0 0 ''XEQT'' (updateBook 3 1 50 0 ''XEQT'' BookData)))
     (createKeyData ''XEQT'' 3) = None \<and>
   (0::int) < 50 \<and>
   (\<exists>r. map_of (sideOf 1 (updateBook 3 1 50 0 ''XEQT'' (updateBook 3 1 50 0 ''XEQT'' BookData)))
          (createKeyData ''XEQT'' 3) = Some r \<and>
        heap (updateBook 3 1 50 0 ''XEQT'' (updateBook 3 1 50 0 ''XEQT'' BookData)) r
          = createRow 0 50 ''XEQT'' 3)"
  using updateBook_zero_quantity_removes
    [of 1 3 0 "''XEQT''" "updateBook 3 1 50 0 ''XEQT'' BookData" 50 0]
  by simp

section \<open>The market order checker over a pass\<close>

lemma observe_Nil [simp]: "observe e [] c = c"
  by (simp add: observe_def)

lemma observe_Cons [simp]: "observe e (p # ps) c = observe e ps (checkMarketOrder e p c)"
  by (simp add: observe_def)

lemma observe_snoc: "observe e (ps @ [p]) c = checkMarketOrder e p (observe e ps c)"
  by (simp add: observe_def)

lemma hasMarkerOrder_observe:
  "hasMarkerOrder (observe e ps c) \<longleftrightarrow> hasMarkerOrder c \<or> (\<exists>p\<in>set ps. is_marker e p)"
  by (induction ps arbitrary: c) (auto simp: checkMarketOrder_def is_marker_def)

lemma isMarkerOrder_observe_snoc:
  "isMarkerOrder (observe e (ps @ [p]) c) \<longleftrightarrow> is_marker e p"
  by (simp add: observe_snoc checkMarketOrder_def is_marker_def)

lemma isBidMarkerOrder_observe_unmarked:
  "\<forall>p\<in>set ps. \<not> is_marker e p \<Longrightarrow> isBidMarkerOrder (observe e ps c) = isBidMarkerOrder c"
  by (induction ps arbitrary: c) (auto simp: checkMarketOrder_def is_marker_def)

lemma isBidMarkerOrder_observe_last:
  assumes "k < length ps" "is_marker e (ps ! k)"
    and "\<forall>m. k < m \<and> m < length ps \<longrightarrow> \<not> is_marker e (ps ! m)"
  shows "isBidMarkerOrder (observe e ps c) \<longleftrightarrow> ps ! k = BID e"
proof -
  have split: "ps = take k ps @ (ps ! k) # drop (Suc k) ps"
    using assms(1) by (simp add: id_take_nth_drop)
  have rest: "\<forall>p\<in>set (drop (Suc k) ps). \<not> is_marker e p"
  proof
    fix p assume "p \<in> set (drop (Suc k) ps)"
    then obtain i where "i < length (drop (Suc k) ps)" "p = drop (Suc k) ps ! i"
      by (auto simp: in_set_conv_nth)
    then show "\<not> is_marker e p" using assms(3) by simp
  qed
  have "observe e ps c
      = observe e (drop (Suc k) ps) (checkMarketOrder e (ps ! k) (observe e (take k ps) c))"
    by (subst split) (simp add: observe_def)
  then have "isBidMarkerOrder (observe e ps c)
      = isBidMarkerOrder (checkMarketOrder e (ps ! k) (observe e (take k ps) c))"
    using isBidMarkerOrder_observe_unmarked [OF rest] by simp
  then show ?thesis
    using assms(2) by (auto simp: checkMarketOrder_def is_marker_def)
qed

subsection \<open>The VBBO pass\<close>

lemma calculateVBBO_rows_fields:
  "price (calculateVBBO_rows e rs h c val cum x) = price (h x) \<and>
   qty (calculateVBBO_rows e rs h c val cum x) = qty (h x) \<and>
   venue (calculateVBBO_rows e rs h c val cum x) = venue (h x) \<and>
   key (calculateVBBO_rows e rs h c val cum x) = key (h x)"
  by (induction rs arbitrary: h c val cum) (simp_all add: Let_def)

lemma calculateVBBO_rows_other:
  "x \<notin> set rs \<Longrightarrow> calculateVBBO_rows e rs h c val cum x = h x"
  by (induction rs arbitrary: h c val cum) (simp_all add: Let_def)

lemma rowPrice_upd:
  "rowPrice e (h(r := (h r)\<lparr>cumQty := a, vbbo := b\<rparr>)) = rowPrice e h"
  "rowQty e (h(r := (h r)\<lparr>cumQty := a, vbbo := b\<rparr>)) = rowQty e h"
  by (simp_all add: rowPrice_def rowQty_def fun_eq_iff)

lemma calculateVBBO_rows_row:
  "distinct rs \<Longrightarrow> i < length rs \<Longrightarrow>
   vbbo (calculateVBBO_rows e rs h c val cum (rs ! i))
     = calculateRowPrice e (observe e (take (Suc i) (map (rowPrice e h) rs)) c)
         (rowPrice e h (rs ! i))
         (val + sum_list (map (\<lambda>r. rowPrice e h r * of_int (rowQty e h r)) (take (Suc i) rs)))
         (cum + sum_list (map (rowQty e h) (take (Suc i) rs))) \<and>
   cumQty (calculateVBBO_rows e rs h c val cum (rs ! i))
     = cum + sum_list (map (rowQty e h) (take (Suc i) rs))"
proof (induction rs arbitrary: h c val cum i)
  case Nil
  then show ?case by simp
next
  case (Cons r rs)
  define p where "p = rowPrice e h r"
  define c' where "c' = checkMarketOrder e p c"
  define cum' where "cum' = cum + rowQty e h r"
  define val' where "val' = val + p * of_int (rowQty e h r)"
  define h' where "h' = h(r := (h r)\<lparr>cumQty := cum', vbbo := calculateRowPrice e c' p val' cum'\<rparr>)"
  have step: "calculateVBBO_rows e (r # rs) h c val cum = calculateVBBO_rows e rs h' c' val' cum'"
    by (simp add: Let_def p_def c'_def cum'_def val'_def h'_def rowPrice_def rowQty_def)
  have same: "rowPrice e h' = rowPrice e h" "rowQty e h' = rowQty e h"
    unfolding h'_def by (rule rowPrice_upd)+
  show ?case
  proof (cases i)
    case 0
    have "r \<notin> set rs" using Cons.prems by simp
    then have "calculateVBBO_rows e rs h' c' val' cum' r = h' r"
      by (rule calculateVBBO_rows_other)
    then show ?thesis
      using 0 step by (simp add: h'_def c'_def p_def val'_def cum'_def)
  next
    case (Suc j)
    then have "distinct rs" "j < length rs" using Cons.prems by simp_all
    from Cons.IH [OF this, of h' c' val' cum']
    show ?thesis
      using Suc step by (simp add: same c'_def p_def val'_def cum'_def add.assoc)
  qed
qed

text \<open>
  Claim C1, as the code has it. In one VBBO pass over distinct rows, once a marker
  price has been read at a row \<open>j\<close>, every row \<open>i\<close> from \<open>j\<close> on is served from the
  tainted branch: a row whose own price is a marker gets that price as its vbbo, and
  every other row gets an UNKNOWN sentinel, the one of the polarity of the latest
  marker read up to that row: UNKNOWN-BID when that marker was the BID marker,
  UNKNOWN-OFFER when it was the OFFER marker.
\<close>

theorem vbbo_after_marker:
  assumes "distinct sortedArray" and "i < length sortedArray" and "j \<le> i"
    and "is_marker e (rowPrice e h (sortedArray ! j))"
  shows "(is_marker e (rowPrice e h (sortedArray ! i)) \<longrightarrow>
            vbbo (calculateVBBO e sd sortedArray h (sortedArray ! i))
              = Finite (rowPrice e h (sortedArray ! i))) \<and>
         (\<not> is_marker e (rowPrice e h (sortedArray ! i)) \<longrightarrow>
            (vbbo (calculateVBBO e sd sortedArray h (sortedArray ! i)) = Finite (UNKNOWN_BID e) \<or>
             vbbo (calculateVBBO e sd sortedArray h (sortedArray ! i)) = Finite (UNKNOWN_OFFER e)) \<and>
            (\<forall>k\<le>i. is_marker e (rowPrice e h (sortedArray ! k)) \<and>
                 (\<forall>m. k < m \<and> m \<le> i \<longrightarrow> \<not> is_marker e (rowPrice e h (sortedArray ! m))) \<longrightarrow>
               vbbo (calculateVBBO e sd sortedArray h (sortedArray ! i))
                 = Finite (if rowPrice e h (sortedArray ! k) = BID e then UNKNOWN_BID e
                           else UNKNOWN_OFFER e)))"
proof -
  define ps where "ps = take (Suc i) (map (rowPrice e h) sortedArray)"
  define c where "c = observe e ps new_VBBOMarkerOrderChecker"
  let ?v = "vbbo (calculateVBBO e sd sortedArray h (sortedArray ! i))"
  have len: "length ps = Suc i" using assms(2) by (simp add: ps_def)
  have nth: "ps ! m = rowPrice e h (sortedArray ! m)" if "m \<le> i" for m
    using assms(2) that by (simp add: ps_def)
  obtain n d where v: "?v = calculateRowPrice e c (rowPrice e h (sortedArray ! i)) n d"
    using calculateVBBO_rows_row [OF assms(1,2), of e h new_VBBOMarkerOrderChecker 0 0]
    unfolding calculateVBBO_def c_def ps_def by blast
  have "ps ! j \<in> set ps" using assms(3) len by (intro nth_mem) simp
  then have has: "hasMarkerOrder c"
    using assms(3,4) nth [of j] by (auto simp: c_def hasMarkerOrder_observe)
  have "ps = take i (map (rowPrice e h) sortedArray) @ [rowPrice e h (sortedArray ! i)]"
    using assms(2) by (simp add: ps_def take_Suc_conv_app_nth)
  then have cur: "isMarkerOrder c \<longleftrightarrow> is_marker e (rowPrice e h (sortedArray ! i))"
    using isMarkerOrder_observe_snoc by (simp add: c_def)
  have pol: "isBidMarkerOrder c \<longleftrightarrow> rowPrice e h (sortedArray ! k) = BID e"
    if "k \<le> i" "is_marker e (rowPrice e h (sortedArray ! k))"
      "\<forall>m. k < m \<and> m \<le> i \<longrightarrow> \<not> is_marker e (rowPrice e h (sortedArray ! m))" for k
  proof -
    have "isBidMarkerOrder (observe e ps new_VBBOMarkerOrderChecker) \<longleftrightarrow> ps ! k = BID e"
    proof (rule isBidMarkerOrder_observe_last)
      show "k < length ps" using that(1) len by simp
      show "is_marker e (ps ! k)" using that(1,2) nth by simp
      show "\<forall>m. k < m \<and> m < length ps \<longrightarrow> \<not> is_marker e (ps ! m)"
        using that(3) nth len by simp
    qed
    then show ?thesis using nth [OF that(1)] by (simp add: c_def)
  qed
  show ?thesis
    using v has cur pol by (auto simp: calculateRowPrice_def)
qed

theorem vbbo_after_marker_witness:
  "distinct [0, 1, 2 :: nat] \<and> (2 :: nat) < length [0, 1, 2 :: nat] \<and> (1 :: nat) \<le> 2 \<and>
   is_marker example_env (rowPrice example_env (heap mixed_marker_updates) ([0, 1, 2] ! 1)) \<and>
   \<not> is_marker example_env (rowPrice example_env (heap mixed_marker_updates) ([0, 1, 2] ! 2)) \<and>
   vbbo (calculateVBBO example_env [] [0, 1, 2] (heap mixed_marker_updates) ([0, 1, 2] ! 2))
     = Finite (UNKNOWN_BID example_env) \<and>
   vbbo (calculateVBBO example_env [] [0, 1, 2] (heap mixed_marker_updates) ([0, 1, 2] ! 1))
     = Finite (BID example_env)"
proof -
  have d: "distinct [0, 1, 2 :: nat]" by simp
  have m: "is_marker example_env (rowPrice example_env (heap mixed_marker_updates) ([0, 1, 2] ! 1))"
    by (simp add: mixed_marker_updates_def eval_defs)
  have u: "\<not> is_marker example_env (rowPrice example_env (heap mixed_marker_updates) ([0, 1, 2] ! 2))"
    by (simp add: mixed_marker_updates_def eval_defs)
  from vbbo_after_marker [OF d, of 2 1 example_env "heap mixed_marker_updates" "[]"] m u
  have a: "vbbo (calculateVBBO example_env [] [0, 1, 2] (heap mixed_marker_updates) ([0, 1, 2] ! 2))
      = Finite (UNKNOWN_BID example_env) \<or>
    vbbo (calculateVBBO example_env [] [0, 1, 2] (heap mixed_marker_updates) ([0, 1, 2] ! 2))
      = Finite (UNKNOWN_OFFER example_env)"
    by simp
  have b: "vbbo (calculateVBBO example_env [] [0, 1, 2] (heap mixed_marker_updates) ([0, 1, 2] ! 2))
      \<noteq> Finite (UNKNOWN_OFFER example_env)"
    by (simp add: mixed_marker_updates_def eval_defs)
  from vbbo_after_marker [OF d, of 1 1 example_env "heap mixed_marker_updates" "[]"] m
  have c: "vbbo (calculateVBBO example_env [] [0, 1, 2] (heap mixed_marker_updates) ([0, 1, 2] ! 1))
      = Finite (BID example_env)"
    by (simp add: mixed_marker_updates_def eval_defs)
  show ?thesis using d m u a b c by simp
qed

text \<open>
  The claim as it is worded fails where both markers occur in one pass. On the bid
  side of \<open>mixed_marker_book\<close> the pass reads the OFFER marker at the first row, the BID
  marker at the second, and the third row, whose price is no marker, gets UNKNOWN-BID
  and not UNKNOWN-OFFER.
\<close>

theorem vbbo_after_marker_counterexample:
  "sortedBuy mixed_marker_book = [0, 1, 2] \<and>
   rowPrice example_env (heap mixed_marker_book) 0 = OFFER example_env \<and>
   \<not> is_marker example_env (rowPrice example_env (heap mixed_marker_book) 2) \<and>
   vbbo (heap mixed_marker_book 2) = Finite (UNKNOWN_BID example_env) \<and>
   vbbo (heap mixed_marker_book 2) \<noteq> Finite (UNKNOWN_OFFER example_env)"
  by (simp add: mixed_marker_book_def mixed_marker_updates_def eval_defs)

subsection \<open>The VWAP pass\<close>

lemma vwap_loop_checker:
  "snd (snd (snd (vwap_loop e h rs idx rem used val lvl c))) = observe e (map (rowPrice e h) rs) c"
  by (induction rs arbitrary: idx rem used val lvl c) (simp_all add: Let_def rowPrice_def)

text \<open>
  Claim C2. The loop of the VWAP computation shows the checker the price of every row
  of the sequence, whatever the requested quantity is and however much of it is left.
  If some row carries a marker price the returned price is the BID or the OFFER marker
  itself, the one of the polarity of the last marker row of the sequence.
\<close>

theorem vwap_marker_forces_sentinel:
  "snd (snd (snd (vwap_loop e h sortedArray 0 q 0 0 (- 1) new_VBBOMarkerOrderChecker)))
     = fold (checkMarketOrder e) (map (rowPrice e h) sortedArray) new_VBBOMarkerOrderChecker \<and>
   ((\<exists>r\<in>set sortedArray. is_marker e (rowPrice e h r)) \<longrightarrow>
      vwap_price (calculateVwapForQty e q sortedArray h) = Finite (BID e) \<or>
      vwap_price (calculateVwapForQty e q sortedArray h) = Finite (OFFER e)) \<and>
   (\<forall>k<length sortedArray. is_marker e (rowPrice e h (sortedArray ! k)) \<and>
        (\<forall>m. k < m \<and> m < length sortedArray \<longrightarrow> \<not> is_marker e (rowPrice e h (sortedArray ! m))) \<longrightarrow>
      vwap_price (calculateVwapForQty e q sortedArray h)
        = Finite (if rowPrice e h (sortedArray ! k) = BID e then BID e else OFFER e))"
proof -
  let ?ps = "map (rowPrice e h) sortedArray"
  let ?c = "observe e ?ps new_VBBOMarkerOrderChecker"
  obtain used val lvl c where loop:
    "vwap_loop e h sortedArray 0 q 0 0 (- 1) new_VBBOMarkerOrderChecker = (used, val, lvl, c)"
    by (metis prod_cases4)
  have c: "c = ?c"
    using vwap_loop_checker [of e h sortedArray 0 q 0 0 "- 1" new_VBBOMarkerOrderChecker]
    by (simp add: loop)
  have p: "vwap_price (calculateVwapForQty e q sortedArray h) = calculatePrice e ?c val used"
    using loop c by (simp add: calculateVwapForQty_def)
  have has: "hasMarkerOrder ?c \<longleftrightarrow> (\<exists>r\<in>set sortedArray. is_marker e (rowPrice e h r))"
    by (simp add: hasMarkerOrder_observe new_VBBOMarkerOrderChecker_def)
  have pol: "isBidMarkerOrder ?c \<longleftrightarrow> rowPrice e h (sortedArray ! k) = BID e"
    if "k < length sortedArray" "is_marker e (rowPrice e h (sortedArray ! k))"
      "\<forall>m. k < m \<and> m < length sortedArray \<longrightarrow> \<not> is_marker e (rowPrice e h (sortedArray ! m))" for k
    using isBidMarkerOrder_observe_last [of k ?ps e new_VBBOMarkerOrderChecker] that by simp
  have 1: "snd (snd (snd (vwap_loop e h sortedArray 0 q 0 0 (- 1) new_VBBOMarkerOrderChecker)))
     = fold (checkMarketOrder e) ?ps new_VBBOMarkerOrderChecker"
    using loop c by (simp add: observe_def)
  have 2: "(\<exists>r\<in>set sortedArray. is_marker e (rowPrice e h r)) \<longrightarrow>
      vwap_price (calculateVwapForQty e q sortedArray h) = Finite (BID e) \<or>
      vwap_price (calculateVwapForQty e q sortedArray h) = Finite (OFFER e)"
    using p has by (simp add: calculatePrice_def)
  have 3: "vwap_price (calculateVwapForQty e q sortedArray h)
        = Finite (if rowPrice e h (sortedArray ! k) = BID e then BID e else OFFER e)"
    if "k < length sortedArray" "is_marker e (rowPrice e h (sortedArray ! k))"
      "\<forall>m. k < m \<and> m < length sortedArray \<longrightarrow> \<not> is_marker e (rowPrice e h (sortedArray ! m))" for k
  proof -
    have "hasMarkerOrder ?c" using has that(1,2) by auto
    then show ?thesis using p pol [OF that] by (simp add: calculatePrice_def)
  qed
  show ?thesis using 1 2 3 by blast
qed

theorem vwap_marker_forces_sentinel_witness:
  "sortedSell late_marker_book = [0, 1] \<and>
   is_marker example_env (rowPrice example_env (heap late_marker_book) ([0, 1] ! 1)) \<and>
   calculateVwapForQty example_env 3 (sortedSell late_marker_book) (heap late_marker_book)
     = \<lparr>vwap_qty = 3, vwap_price = Finite (BID example_env), vwap_level = 0\<rparr>"
proof -
  have sorted: "sortedSell late_marker_book = [0, 1]"
    by (simp add: late_marker_book_def eval_defs)
  have m: "is_marker example_env (rowPrice example_env (heap late_marker_book) ([0, 1] ! 1))"
    by (simp add: late_marker_book_def eval_defs)
  have "vwap_price (calculateVwapForQty example_env 3 [0, 1] (heap late_marker_book))
      = Finite (if rowPrice example_env (heap late_marker_book) ([0, 1] ! 1) = BID example_env
                then BID example_env else OFFER example_env)"
    by (rule vwap_marker_forces_sentinel [of example_env "heap late_marker_book" "[0, 1]" 3,
          THEN conjunct2, THEN conjunct2, rule_format, of 1])
       (use m in simp_all)
  moreover have "rowPrice example_env (heap late_marker_book) ([0, 1] ! 1) = BID example_env"
    by (simp add: late_marker_book_def eval_defs)
  moreover have "vwap_qty (calculateVwapForQty example_env 3 [0, 1] (heap late_marker_book)) = 3"
    "vwap_level (calculateVwapForQty example_env 3 [0, 1] (heap late_marker_book)) = 0"
    by (simp_all add: late_marker_book_def calculateVwapForQty_def eval_defs)
  ultimately show ?thesis
    using sorted m by (simp add: vwap_result.equality)
qed

lemma vwap_loop_used:
  "fst (vwap_loop e h rs idx rem used val lvl c) = used + sum_list (fills rem (map (rowQty e h) rs))"
  by (induction rs arbitrary: idx rem used val lvl c) (auto simp: Let_def rowQty_def min_def)

lemma vwap_loop_val:
  "fst (snd (vwap_loop e h rs idx rem used val lvl c))
     = val + notional (fills rem (map (rowQty e h) rs)) (map (rowPrice e h) rs)"
  by (induction rs arbitrary: idx rem used val lvl c)
     (auto simp: Let_def rowQty_def rowPrice_def min_def notional_def)

lemma vwap_loop_level:
  "fst (snd (snd (vwap_loop e h rs idx rem used val lvl c)))
     = last_fill idx lvl (fills rem (map (rowQty e h) rs))"
  by (induction rs arbitrary: idx rem used val lvl c) (auto simp: Let_def rowQty_def min_def)

lemma positive_indices_Cons:
  "filter (\<lambda>i. (f # fs) ! i > (0::int)) [0..<length (f # fs)]
     = (if f > 0 then [0] else []) @ map Suc (filter (\<lambda>i. fs ! i > 0) [0..<length fs])"
proof -
  have "[0..<length (f # fs)] = 0 # map Suc [0..<length fs]"
    by (simp add: upt_conv_Cons map_Suc_upt del: upt_Suc)
  then show ?thesis by (simp add: filter_map comp_def)
qed

lemma positive_indices_empty:
  "filter (\<lambda>i. fs ! i > (0::int)) [0..<length fs] = [] \<longleftrightarrow> (\<forall>f\<in>set fs. f \<le> 0)"
  by (auto simp: filter_empty_conv not_less all_set_conv_all_nth [of fs])

lemma last_fill_eq:
  "last_fill idx lvl fs =
     (if \<forall>f\<in>set fs. f \<le> 0 then lvl
      else idx + int (last (filter (\<lambda>i. fs ! i > 0) [0..<length fs])))"
proof (induction fs arbitrary: idx lvl)
  case Nil
  then show ?case by simp
next
  case (Cons f fs)
  show ?case
  proof (cases "\<forall>g\<in>set fs. g \<le> 0")
    case True
    then have "filter (\<lambda>i. fs ! i > 0) [0..<length fs] = []"
      by (simp only: positive_indices_empty)
    then show ?thesis
      using True Cons.IH [of "idx + 1" "if f > 0 then idx else lvl"]
      by (simp only: positive_indices_Cons last_fill.simps) auto
  next
    case False
    then have ne: "filter (\<lambda>i. fs ! i > 0) [0..<length fs] \<noteq> []"
      by (simp only: positive_indices_empty) simp
    then have "last (filter (\<lambda>i. (f # fs) ! i > 0) [0..<length (f # fs)])
        = Suc (last (filter (\<lambda>i. fs ! i > 0) [0..<length fs]))"
      by (simp only: positive_indices_Cons) (simp add: last_map)
    then show ?thesis
      using False Cons.IH [of "idx + 1" "if f > 0 then idx else lvl"]
      by (simp only: last_fill.simps) auto
  qed
qed

lemma fills_nonneg: "f \<in> set (fills rem qs) \<Longrightarrow> 0 \<le> f"
  by (induction qs arbitrary: rem) (auto split: if_splits)

lemma fills_total:
  "0 \<le> rem \<Longrightarrow> sum_list (fills rem qs) = min rem (sum_list (filter (\<lambda>x. 0 < x) qs))"
proof (induction qs arbitrary: rem)
  case Nil
  then show ?case by simp
next
  case (Cons x xs)
  have pos: "0 \<le> sum_list (filter (\<lambda>x. 0 < x) xs)"
    by (rule sum_list_nonneg) auto
  show ?case
  proof (cases "rem > 0 \<and> x > 0")
    case True
    then have "0 \<le> rem - min rem x" by simp
    from Cons.IH [OF this] True pos show ?thesis by (auto simp: min_def)
  next
    case False
    with Cons.IH [OF Cons.prems] Cons.prems pos show ?thesis by (auto simp: min_def)
  qed
qed

lemma calculateVwapForQty_eq:
  "calculateVwapForQty e q rs h
     = \<lparr>vwap_qty = sum_list (fills q (map (rowQty e h) rs)),
        vwap_price = calculatePrice e (observe e (map (rowPrice e h) rs) new_VBBOMarkerOrderChecker)
          (notional (fills q (map (rowQty e h) rs)) (map (rowPrice e h) rs))
          (sum_list (fills q (map (rowQty e h) rs))),
        vwap_level = last_contributing (fills q (map (rowQty e h) rs))\<rparr>"
proof -
  obtain used val lvl c where loop:
    "vwap_loop e h rs 0 q 0 0 (- 1) new_VBBOMarkerOrderChecker = (used, val, lvl, c)"
    by (metis prod_cases4)
  have "used = sum_list (fills q (map (rowQty e h) rs))"
    using vwap_loop_used [of e h rs 0 q 0 0 "- 1" new_VBBOMarkerOrderChecker] by (simp add: loop)
  moreover have "val = notional (fills q (map (rowQty e h) rs)) (map (rowPrice e h) rs)"
    using vwap_loop_val [of e h rs 0 q 0 0 "- 1" new_VBBOMarkerOrderChecker] by (simp add: loop)
  moreover have "lvl = last_contributing (fills q (map (rowQty e h) rs))"
    using vwap_loop_level [of e h rs 0 q 0 0 "- 1" new_VBBOMarkerOrderChecker]
    by (simp add: loop last_fill_eq last_contributing_def)
  moreover have "c = observe e (map (rowPrice e h) rs) new_VBBOMarkerOrderChecker"
    using vwap_loop_checker [of e h rs 0 q 0 0 "- 1" new_VBBOMarkerOrderChecker] by (simp add: loop)
  ultimately show ?thesis by (simp add: calculateVwapForQty_def loop)
qed

text \<open>
  Claim C4. When no row of the sequence carries a marker price, the consumed quantity
  is the sum of the fills (for a request that is not negative: the smaller of the
  request and the total of the positive level quantities), the level is the index of
  the last level that gave a fill, \<open>-1\<close> when none did, and the price is the notional of
  the fills divided by the consumed quantity (\<open>0\<close> when nothing was consumed).
\<close>

theorem vwap_without_marker:
  assumes "\<forall>r\<in>set sortedArray. \<not> is_marker e (rowPrice e h r)"
  shows "vwap_qty (calculateVwapForQty e q sortedArray h)
           = sum_list (fills q (map (rowQty e h) sortedArray)) \<and>
         (0 \<le> q \<longrightarrow> vwap_qty (calculateVwapForQty e q sortedArray h)
           = min q (sum_list (filter (\<lambda>x. 0 < x) (map (rowQty e h) sortedArray)))) \<and>
         vwap_level (calculateVwapForQty e q sortedArray h)
           = last_contributing (fills q (map (rowQty e h) sortedArray)) \<and>
         vwap_price (calculateVwapForQty e q sortedArray h)
           = (if 0 < sum_list (fills q (map (rowQty e h) sortedArray))
              then Finite (notional (fills q (map (rowQty e h) sortedArray))
                             (map (rowPrice e h) sortedArray)
                           / of_int (sum_list (fills q (map (rowQty e h) sortedArray))))
              else Finite 0)"
proof -
  define fs where "fs = fills q (map (rowQty e h) sortedArray)"
  obtain used val lvl c where loop:
    "vwap_loop e h sortedArray 0 q 0 0 (- 1) new_VBBOMarkerOrderChecker = (used, val, lvl, c)"
    by (metis prod_cases4)
  have used: "used = sum_list fs"
    using vwap_loop_used [of e h sortedArray 0 q 0 0 "- 1" new_VBBOMarkerOrderChecker]
    by (simp add: loop fs_def)
  have val: "val = notional fs (map (rowPrice e h) sortedArray)"
    using vwap_loop_val [of e h sortedArray 0 q 0 0 "- 1" new_VBBOMarkerOrderChecker]
    by (simp add: loop fs_def)
  have lvl: "lvl = last_contributing fs"
    using vwap_loop_level [of e h sortedArray 0 q 0 0 "- 1" new_VBBOMarkerOrderChecker]
    by (simp add: loop fs_def last_fill_eq last_contributing_def)
  have "c = observe e (map (rowPrice e h) sortedArray) new_VBBOMarkerOrderChecker"
    using vwap_loop_checker [of e h sortedArray 0 q 0 0 "- 1" new_VBBOMarkerOrderChecker]
    by (simp add: loop)
  then have c: "\<not> hasMarkerOrder c"
    using assms by (simp add: hasMarkerOrder_observe new_VBBOMarkerOrderChecker_def)
  have res: "calculateVwapForQty e q sortedArray h
      = \<lparr>vwap_qty = used, vwap_price = calculatePrice e c val used, vwap_level = lvl\<rparr>"
    by (simp add: calculateVwapForQty_def loop)
  have price: "calculatePrice e c val used
      = (if 0 < used then Finite (val / of_int used) else Finite 0)"
    using c by (simp add: calculatePrice_def js_div_def)
  show ?thesis
    unfolding fs_def [symmetric]
    using used val lvl price fills_total [of q "map (rowQty e h) sortedArray"]
    by (simp add: res fs_def)
qed

theorem vwap_without_marker_witness:
  "sortedBuy partial_fill_book = [0, 1] \<and>
   \<not> is_marker example_env (rowPrice example_env (heap partial_fill_book) 0) \<and>
   \<not> is_marker example_env (rowPrice example_env (heap partial_fill_book) 1) \<and>
   map (\<lambda>r. (qty (heap partial_fill_book r), price (heap partial_fill_book r)))
     (sortedBuy partial_fill_book) = [(10, 100), (10, 99)] \<and>
   calculateVwapForQty example_env 15 (sortedBuy partial_fill_book) (heap partial_fill_book)
     = \<lparr>vwap_qty = 15, vwap_price = Finite ((100 * 10 + 99 * 5) / 15), vwap_level = 1\<rparr>"
proof -
  have sorted: "sortedBuy partial_fill_book = [0, 1]"
    by (simp add: partial_fill_book_def eval_defs)
  have rows: "heap partial_fill_book 0 = \<lparr>price = 100, qty = 10, venue = ''A'', vbbo = Finite 100, cumQty = 10, key = (''A'', 1)\<rparr>"
    "heap partial_fill_book (Suc 0) = \<lparr>price = 99, qty = 10, venue = ''A'', vbbo = Finite (199 / 2), cumQty = 20, key = (''A'', 2)\<rparr>"
    by (simp_all add: partial_fill_book_def eval_defs)
  have unmarked: "\<forall>r\<in>set (sortedBuy partial_fill_book).
      \<not> is_marker example_env (rowPrice example_env (heap partial_fill_book) r)"
    by (simp add: sorted rows is_marker_def rowPrice_def example_env_def)
  show ?thesis
    using vwap_without_marker [OF unmarked, of 15] unmarked
    by (simp add: sorted rows is_marker_def rowQty_def rowPrice_def example_env_def last_contributing_def
        notional_def vwap_result.equality)
qed

section \<open>The guard of the weighted prices\<close>

text \<open>
  Claim C8. As long as the checker has seen no marker price, the level price of the VBBO
  pass and the price of the VWAP pass are the quotient of numerator and denominator
  when the denominator (the cumulative, respectively the consumed quantity) is
  positive, and \<open>0\<close> otherwise, in particular at the denominator \<open>0\<close>. The division is
  never reached with the denominator \<open>0\<close>: neither price is the non-finite result of
  such a division. So in a VBBO pass the vbbo of a row that no marker precedes is the
  notional up to the row divided by the cumulative quantity, or \<open>0\<close>, and in a VWAP pass
  over rows without markers the price is the notional of the fills divided by the
  consumed quantity, or \<open>0\<close>.
\<close>

theorem weighted_price_division_guarded:
  "(\<not> hasMarkerOrder c \<longrightarrow>
     calculateRowPrice e c p n d = (if 0 < d then Finite (n / of_int d) else Finite 0) \<and>
     calculatePrice e c n d = (if 0 < d then Finite (n / of_int d) else Finite 0) \<and>
     (d = 0 \<longrightarrow> calculateRowPrice e c p n d = Finite 0 \<and> calculatePrice e c n d = Finite 0) \<and>
     calculateRowPrice e c p n d \<noteq> NonFinite \<and> calculatePrice e c n d \<noteq> NonFinite) \<and>
   (distinct rs \<and> i < length rs \<and> (\<forall>j\<le>i. \<not> is_marker e (rowPrice e h (rs ! j))) \<longrightarrow>
     vbbo (calculateVBBO e sd rs h (rs ! i))
       = (if 0 < sum_list (map (rowQty e h) (take (Suc i) rs))
          then Finite (sum_list (map (\<lambda>r. rowPrice e h r * of_int (rowQty e h r)) (take (Suc i) rs))
                       / of_int (sum_list (map (rowQty e h) (take (Suc i) rs))))
          else Finite 0)) \<and>
   ((\<forall>r\<in>set rs. \<not> is_marker e (rowPrice e h r)) \<longrightarrow>
     vwap_price (calculateVwapForQty e q rs h)
       = (if 0 < vwap_qty (calculateVwapForQty e q rs h)
          then Finite (notional (fills q (map (rowQty e h) rs)) (map (rowPrice e h) rs)
                       / of_int (vwap_qty (calculateVwapForQty e q rs h)))
          else Finite 0))"
proof -
  have guard: "calculateRowPrice e c p n d = (if 0 < d then Finite (n / of_int d) else Finite 0) \<and>
      calculatePrice e c n d = (if 0 < d then Finite (n / of_int d) else Finite 0)"
    if "\<not> hasMarkerOrder c" for c p n d
    using that by (simp add: calculateRowPrice_def calculatePrice_def js_div_def)
  have row: "vbbo (calculateVBBO e sd rs h (rs ! i))
       = (if 0 < sum_list (map (rowQty e h) (take (Suc i) rs))
          then Finite (sum_list (map (\<lambda>r. rowPrice e h r * of_int (rowQty e h r)) (take (Suc i) rs))
                       / of_int (sum_list (map (rowQty e h) (take (Suc i) rs))))
          else Finite 0)"
    if "distinct rs" "i < length rs" "\<forall>j\<le>i. \<not> is_marker e (rowPrice e h (rs ! j))"
  proof -
    have "\<forall>x\<in>set (take (Suc i) (map (rowPrice e h) rs)). \<not> is_marker e x"
    proof
      fix x assume "x \<in> set (take (Suc i) (map (rowPrice e h) rs))"
      then obtain j where "j < length (take (Suc i) (map (rowPrice e h) rs))"
        "x = take (Suc i) (map (rowPrice e h) rs) ! j"
        by (auto simp: in_set_conv_nth)
      then have "j \<le> i" "x = rowPrice e h (rs ! j)" using that(2) by simp_all
      then show "\<not> is_marker e x" using that(3) by simp
    qed
    then have "\<not> hasMarkerOrder (observe e (take (Suc i) (map (rowPrice e h) rs)) new_VBBOMarkerOrderChecker)"
      by (simp add: hasMarkerOrder_observe new_VBBOMarkerOrderChecker_def)
    from guard [OF this] calculateVBBO_rows_row [OF that(1,2), of e h new_VBBOMarkerOrderChecker 0 0]
    show ?thesis by (simp add: calculateVBBO_def)
  qed
  have quote: "vwap_price (calculateVwapForQty e q rs h)
       = (if 0 < vwap_qty (calculateVwapForQty e q rs h)
          then Finite (notional (fills q (map (rowQty e h) rs)) (map (rowPrice e h) rs)
                       / of_int (vwap_qty (calculateVwapForQty e q rs h)))
          else Finite 0)"
    if "\<forall>r\<in>set rs. \<not> is_marker e (rowPrice e h r)"
  proof -
    have "\<not> hasMarkerOrder (observe e (map (rowPrice e h) rs) new_VBBOMarkerOrderChecker)"
      using that by (simp add: hasMarkerOrder_observe new_VBBOMarkerOrderChecker_def)
    from guard [OF this] show ?thesis by (simp add: calculateVwapForQty_eq)
  qed
  show ?thesis using guard row quote by (simp add: js_div_def)
qed

theorem weighted_price_division_guarded_witness:
  "\<not> hasMarkerOrder new_VBBOMarkerOrderChecker \<and>
   calculateRowPrice example_env new_VBBOMarkerOrderChecker 99 1990 20 = Finite (199 / 2) \<and>
   calculateRowPrice example_env new_VBBOMarkerOrderChecker 99 0 0 = Finite 0 \<and>
   calculatePrice example_env new_VBBOMarkerOrderChecker 0 0 = Finite 0 \<and>
   vbbo (calculateVBBO example_env [] [0, 1] (heap partial_fill_book) ([0, 1] ! 1))
     = Finite ((100 * 10 + 99 * 10) / 20) \<and>
   vwap_price (calculateVwapForQty example_env 15 [0, 1] (heap partial_fill_book))
     = Finite ((100 * 10 + 99 * 5) / 15) \<and>
   vwap_price (calculateVwapForQty example_env 0 [0, 1] (heap partial_fill_book)) = Finite 0"
proof -
  have rows: "heap partial_fill_book 0 = \<lparr>price = 100, qty = 10, venue = ''A'', vbbo = Finite 100, cumQty = 10, key = (''A'', 1)\<rparr>"
    "heap partial_fill_book (Suc 0) = \<lparr>price = 99, qty = 10, venue = ''A'', vbbo = Finite (199 / 2), cumQty = 20, key = (''A'', 2)\<rparr>"
    by (simp_all add: partial_fill_book_def eval_defs)
  have c: "\<not> hasMarkerOrder new_VBBOMarkerOrderChecker"
    by (simp add: new_VBBOMarkerOrderChecker_def)
  have u: "\<forall>j\<le>1. \<not> is_marker example_env (rowPrice example_env (heap partial_fill_book) ([0, 1] ! j))"
    by (simp add: le_Suc_eq rows is_marker_def rowPrice_def example_env_def)
  have a: "\<forall>r\<in>set [0, 1]. \<not> is_marker example_env (rowPrice example_env (heap partial_fill_book) r)"
    by (simp add: rows is_marker_def rowPrice_def example_env_def)
  have q: "vwap_qty (calculateVwapForQty example_env 15 [0, 1] (heap partial_fill_book)) = 15"
    "vwap_qty (calculateVwapForQty example_env 0 [0, 1] (heap partial_fill_book)) = 0"
    by (simp_all add: calculateVwapForQty_def rows example_env_def)
  show ?thesis
    using weighted_price_division_guarded
        [of new_VBBOMarkerOrderChecker example_env 99 1990 20 "[0, 1]" 1 "heap partial_fill_book" "[]" 15]
      weighted_price_division_guarded
        [of new_VBBOMarkerOrderChecker example_env 99 0 0 "[0, 1]" 1 "heap partial_fill_book" "[]" 0]
      c u a q
    by (simp add: rows rowPrice_def rowQty_def notional_def example_env_def)
qed

section \<open>Aggregation\<close>

subsection \<open>The first loop\<close>

lemma update_absent: "map_of m k = None \<Longrightarrow> AList.update k v m = m @ [(k, v)]"
  by (induction m) (auto split: if_splits)

lemma aggregate_step_new:
  "map_of m (roundedPrice e h r) = None \<Longrightarrow>
   aggregate_step e r (h, m)
     = (h(r := (h r)\<lparr>qty := parseInt (qty (h r))\<rparr>), m @ [(roundedPrice e h r, r)])"
  by (simp add: aggregate_step_def roundedPrice_def Let_def update_absent)

lemma aggregate_step_old:
  "map_of m (roundedPrice e h r) = Some s \<Longrightarrow>
   aggregate_step e r (h, m)
     = (h(s := (h s)\<lparr>qty := qty (h s) + parseInt (qty (h r)),
                     cumQty := cumQty (h s) + cumQty (h r),
                     key := (if venue (h s) = [] then key (h r) else key (h s))\<rparr>), m)"
  by (auto simp: aggregate_step_def roundedPrice_def Let_def fun_eq_iff)

lemma aggregate_step_cases:
  obtains (new) "map_of m (roundedPrice e h r) = None"
      "aggregate_step e r (h, m)
         = (h(r := (h r)\<lparr>qty := parseInt (qty (h r))\<rparr>), m @ [(roundedPrice e h r, r)])"
    | (old) s where "map_of m (roundedPrice e h r) = Some s"
      "aggregate_step e r (h, m)
         = (h(s := (h s)\<lparr>qty := qty (h s) + parseInt (qty (h r)),
                         cumQty := cumQty (h s) + cumQty (h r),
                         key := (if venue (h s) = [] then key (h r) else key (h s))\<rparr>), m)"
  using aggregate_step_new aggregate_step_old by (cases "map_of m (roundedPrice e h r)") auto

lemma aggregate_step_price:
  "aggregate_step e r (h, m) = (h1, m1) \<Longrightarrow>
   price (h1 x) = price (h x) \<and> venue (h1 x) = venue (h x) \<and> vbbo (h1 x) = vbbo (h x)"
  by (cases rule: aggregate_step_cases [of m e h r]) auto

lemma aggregate_step_rounded:
  "aggregate_step e r (h, m) = (h1, m1) \<Longrightarrow> roundedPrice e h1 = roundedPrice e h"
  using aggregate_step_price [of e r h m h1 m1] by (simp add: roundedPrice_def fun_eq_iff)

lemma aggregate_fold_price:
  "fold (aggregate_step e) rs (h, m) = (h', m') \<Longrightarrow>
   price (h' x) = price (h x) \<and> venue (h' x) = venue (h x) \<and> vbbo (h' x) = vbbo (h x)"
proof (induction rs arbitrary: h m)
  case Nil
  then show ?case by simp
next
  case (Cons r rs)
  obtain h1 m1 where step: "aggregate_step e r (h, m) = (h1, m1)" by force
  with Cons.prems have "fold (aggregate_step e) rs (h1, m1) = (h', m')" by simp
  from Cons.IH [OF this] aggregate_step_price [OF step] show ?case by simp
qed

lemma aggregate_fold_rounded:
  "fold (aggregate_step e) rs (h, m) = (h', m') \<Longrightarrow> roundedPrice e h' = roundedPrice e h"
  using aggregate_fold_price [of e rs h m h' m'] by (simp add: roundedPrice_def fun_eq_iff)

text \<open>The seed of a group, once chosen, stays; a new group is seeded by the first row
  of its rounded price.\<close>

lemma aggregate_fold_map:
  "fold (aggregate_step e) rs (h, m) = (h', m') \<Longrightarrow>
   map_of m' k = (case map_of m k of Some s \<Rightarrow> Some s
                  | None \<Rightarrow> List.find (\<lambda>r. roundedPrice e h r = k) rs)"
proof (induction rs arbitrary: h m)
  case Nil
  then show ?case by (simp split: option.split)
next
  case (Cons r rs)
  obtain h1 m1 where step: "aggregate_step e r (h, m) = (h1, m1)" by force
  with Cons.prems have rest: "fold (aggregate_step e) rs (h1, m1) = (h', m')" by simp
  have rp: "roundedPrice e h1 = roundedPrice e h" by (rule aggregate_step_rounded [OF step])
  show ?case
  proof (cases rule: aggregate_step_cases [of m e h r])
    case new
    with step have "m1 = m @ [(roundedPrice e h r, r)]" by simp
    then show ?thesis
      using Cons.IH [OF rest] new(1) rp by (auto simp: map_add_def split: option.split)
  next
    case (old s)
    with step have "m1 = m" by simp
    then show ?thesis
      using Cons.IH [OF rest] old(1) rp by (auto split: option.split)
  qed
qed

lemma aggregate_fold_keys:
  "fold (aggregate_step e) rs (h, m) = (h', m') \<Longrightarrow> distinct (map fst m) \<Longrightarrow> distinct (map fst m')"
proof (induction rs arbitrary: h m)
  case Nil
  then show ?case by simp
next
  case (Cons r rs)
  obtain h1 m1 where step: "aggregate_step e r (h, m) = (h1, m1)" by force
  with Cons.prems have rest: "fold (aggregate_step e) rs (h1, m1) = (h', m')" by simp
  have "distinct (map fst m1)"
  proof (cases rule: aggregate_step_cases [of m e h r])
    case new
    then show ?thesis using step Cons.prems(2) by (auto simp: map_of_eq_None_iff)
  next
    case (old s)
    then show ?thesis using step Cons.prems(2) by simp
  qed
  from Cons.IH [OF rest this] show ?case .
qed

lemma aggregate_fold_seeds:
  "fold (aggregate_step e) rs (h, m) = (h', m') \<Longrightarrow>
   set m \<subseteq> set m' \<and> snd ` set m' \<subseteq> snd ` set m \<union> set rs"
proof (induction rs arbitrary: h m)
  case Nil
  then show ?case by simp
next
  case (Cons r rs)
  obtain h1 m1 where step: "aggregate_step e r (h, m) = (h1, m1)" by force
  with Cons.prems have rest: "fold (aggregate_step e) rs (h1, m1) = (h', m')" by simp
  have 1: "set m \<subseteq> set m1" and 2: "snd ` set m1 \<subseteq> snd ` set m \<union> {r}"
    using step by (cases rule: aggregate_step_cases [of m e h r]; auto)+
  have 3: "set m1 \<subseteq> set m'" and 4: "snd ` set m' \<subseteq> snd ` set m1 \<union> set rs"
    using Cons.IH [OF rest] by simp_all
  have "snd ` set m' \<subseteq> snd ` set m \<union> set (r # rs)"
    using 2 4 by (simp only: list.set) blast
  with 1 3 show ?case by blast
qed

text \<open>Only seeds are written.\<close>

lemma aggregate_fold_frame:
  "fold (aggregate_step e) rs (h, m) = (h', m') \<Longrightarrow> x \<notin> snd ` set m' \<Longrightarrow> h' x = h x"
proof (induction rs arbitrary: h m)
  case Nil
  then show ?case by simp
next
  case (Cons r rs)
  obtain h1 m1 where step: "aggregate_step e r (h, m) = (h1, m1)" by force
  with Cons.prems have rest: "fold (aggregate_step e) rs (h1, m1) = (h', m')" by simp
  have sub: "set m1 \<subseteq> set m'" using aggregate_fold_seeds [OF rest] by simp
  then have x: "x \<notin> snd ` set m1" using Cons.prems(2) by auto
  have "h1 x = h x"
  proof (cases rule: aggregate_step_cases [of m e h r])
    case new
    then show ?thesis using step x by auto
  next
    case (old s)
    then have "s \<in> snd ` set m1" using step by (auto dest!: map_of_SomeD intro: rev_image_eqI)
    then show ?thesis using old step x by auto
  qed
  with Cons.IH [OF rest Cons.prems(2)] show ?case by simp
qed

lemma group_Cons:
  "group e h k (r # rs) = (if roundedPrice e h r = k then r # group e h k rs else group e h k rs)"
  by (simp add: group_def)

lemma group_subset: "set (group e h k rs) \<subseteq> set rs"
  by (auto simp: group_def)

lemma group_cong:
  "roundedPrice e h1 = roundedPrice e h \<Longrightarrow> group e h1 k rs = group e h k rs"
  by (simp add: group_def)

lemma aggregate_fold_seed:
  assumes "fold (aggregate_step e) rs (h, m) = (h', m')"
    and "distinct rs" and "set rs \<inter> snd ` set m = {}"
    and "\<forall>k s. map_of m k = Some s \<longrightarrow> roundedPrice e h s = k"
    and "map_of m k = Some s"
  shows "qty (h' s) = qty (h s) + sum_list (map (\<lambda>r. parseInt (qty (h r))) (group e h k rs)) \<and>
         key (h' s) = (if venue (h s) = [] \<and> group e h k rs \<noteq> []
                       then key (h (last (group e h k rs))) else key (h s))"
  using assms
proof (induction rs arbitrary: h m)
  case Nil
  then show ?case by (simp add: group_def)
next
  case (Cons r rs)
  obtain h1 m1 where step: "aggregate_step e r (h, m) = (h1, m1)" by force
  with Cons.prems(1) have rest: "fold (aggregate_step e) rs (h1, m1) = (h', m')" by simp
  have rp: "roundedPrice e h1 = roundedPrice e h" by (rule aggregate_step_rounded [OF step])
  have ven: "venue (h1 s) = venue (h s)" using aggregate_step_price [OF step] by simp
  have s_in: "s \<in> snd ` set m"
    using Cons.prems(5) by (auto dest!: map_of_SomeD intro: rev_image_eqI)
  have r_s: "r \<noteq> s" using s_in Cons.prems(3) by auto
  have dist: "distinct rs" and r_rs: "r \<notin> set rs" using Cons.prems(2) by simp_all
  have facts: "(\<forall>x\<in>set rs. h1 x = h x) \<and> set rs \<inter> snd ` set m1 = {} \<and>
      (\<forall>k s. map_of m1 k = Some s \<longrightarrow> roundedPrice e h1 s = k) \<and> map_of m1 k = Some s \<and>
      qty (h1 s) = qty (h s) + (if roundedPrice e h r = k then parseInt (qty (h r)) else 0) \<and>
      key (h1 s) = (if venue (h s) = [] \<and> roundedPrice e h r = k then key (h r) else key (h s))"
  proof (cases rule: aggregate_step_cases [of m e h r])
    case new
    with step have h1: "h1 = h(r := (h r)\<lparr>qty := parseInt (qty (h r))\<rparr>)"
      and m1: "m1 = m @ [(roundedPrice e h r, r)]" by simp_all
    have "roundedPrice e h r \<noteq> k" using new(1) Cons.prems(5) by auto
    moreover have "\<forall>k s. map_of m1 k = Some s \<longrightarrow> roundedPrice e h1 s = k"
      using Cons.prems(4) rp h1
      by (auto simp: m1 map_add_def roundedPrice_def split: option.splits if_splits)
    moreover have "map_of m1 k = Some s"
      using Cons.prems(5) by (simp add: m1 map_add_def)
    ultimately show ?thesis
      using r_s r_rs Cons.prems(3) by (auto simp: h1 m1)
  next
    case (old s0)
    with step have h1: "h1 = h(s0 := (h s0)\<lparr>qty := qty (h s0) + parseInt (qty (h r)),
                     cumQty := cumQty (h s0) + cumQty (h r),
                     key := (if venue (h s0) = [] then key (h r) else key (h s0))\<rparr>)"
      and m1: "m1 = m" by simp_all
    have s0_in: "s0 \<in> snd ` set m"
      using old(1) by (auto dest!: map_of_SomeD intro: rev_image_eqI)
    have "roundedPrice e h s0 = roundedPrice e h r" "roundedPrice e h s = k"
      using old(1) Cons.prems(4,5) by blast+
    then have "s0 = s \<Longrightarrow> roundedPrice e h r = k" by metis
    moreover have "roundedPrice e h r = k \<Longrightarrow> s0 = s"
      using old(1) Cons.prems(5) by simp
    ultimately have eq: "s0 = s \<longleftrightarrow> roundedPrice e h r = k" by blast
    have "\<forall>x\<in>set rs. h1 x = h x" using s0_in Cons.prems(3) by (auto simp: h1)
    moreover have "\<forall>k s. map_of m1 k = Some s \<longrightarrow> roundedPrice e h1 s = k"
      using Cons.prems(4) rp by (simp add: m1)
    ultimately show ?thesis
      using Cons.prems(3,5) eq by (auto simp: h1 m1)
  qed
  have g: "group e h1 k rs = group e h k rs" by (rule group_cong [OF rp])
  have same: "map (\<lambda>r. parseInt (qty (h1 r))) (group e h k rs)
      = map (\<lambda>r. parseInt (qty (h r))) (group e h k rs)"
    using facts group_subset [of e h k rs] by (intro map_cong) auto
  have lastg: "h1 (last (group e h k rs)) = h (last (group e h k rs))" if "group e h k rs \<noteq> []"
  proof -
    from that have "last (group e h k rs) \<in> set (group e h k rs)" by (rule last_in_set)
    then have "last (group e h k rs) \<in> set rs" using group_subset by blast
    then show ?thesis using facts by blast
  qed
  define g where "g = group e h k rs"
  from Cons.IH [OF rest dist] facts
  have IH: "qty (h' s) = qty (h1 s) + sum_list (map (\<lambda>r. parseInt (qty (h1 r))) (group e h1 k rs)) \<and>
      key (h' s) = (if venue (h1 s) = [] \<and> group e h1 k rs \<noteq> []
                    then key (h1 (last (group e h1 k rs))) else key (h1 s))"
    by blast
  have q1: "qty (h1 s) = qty (h s) + (if roundedPrice e h r = k then parseInt (qty (h r)) else 0)"
    and k1: "key (h1 s) = (if venue (h s) = [] \<and> roundedPrice e h r = k then key (h r) else key (h s))"
    using facts by blast+
  have qty': "qty (h' s) = qty (h1 s) + sum_list (map (\<lambda>r. parseInt (qty (h r))) g)"
    using IH unfolding g same unfolding g_def by simp
  have key': "key (h' s) = (if venue (h s) = [] \<and> g \<noteq> [] then key (h (last g)) else key (h1 s))"
  proof (cases "g = []")
    case True
    then show ?thesis using IH unfolding g ven g_def [symmetric] by simp
  next
    case False
    then have "h1 (last g) = h (last g)" using lastg by (simp add: g_def)
    then show ?thesis using IH False unfolding g ven g_def [symmetric] by simp
  qed
  show ?case
  proof (cases "roundedPrice e h r = k")
    case True
    then have "group e h k (r # rs) = r # g" by (simp add: group_Cons g_def)
    then show ?thesis using qty' key' q1 k1 True by (cases "g = []") simp_all
  next
    case False
    then have "group e h k (r # rs) = g" by (simp add: group_Cons g_def)
    then show ?thesis using qty' key' q1 k1 False by simp
  qed
qed

subsection \<open>The second loop and the whole aggregation\<close>

lemma transpose_fold_heap:
  "fst (fold transpose_step ss (h, res)) x = (if x \<in> set ss then (h x)\<lparr>venue := []\<rparr> else h x)"
  by (induction ss arbitrary: h res) (auto simp: transpose_step_def Let_def)

lemma update_values: "snd ` set (AList.update k v al) \<subseteq> insert v (snd ` set al)"
  by (induction al) auto

lemma transpose_fold_refs:
  "snd ` set (snd (fold transpose_step ss (h, res))) \<subseteq> snd ` set res \<union> set ss"
proof (induction ss arbitrary: h res)
  case Nil
  then show ?case by simp
next
  case (Cons s ss)
  obtain h1 res1 where step: "transpose_step s (h, res) = (h1, res1)" by force
  then have "res1 = AList.update (key ((h s)\<lparr>venue := []\<rparr>)) s res"
    by (auto simp: transpose_step_def Let_def)
  then have "snd ` set res1 \<subseteq> insert s (snd ` set res)"
    by (simp only: update_values)
  moreover have "snd ` set (snd (fold transpose_step ss (h1, res1))) \<subseteq> snd ` set res1 \<union> set ss"
    by (rule Cons.IH)
  ultimately show ?case
    using step by (simp only: fold_simps list.set) blast
qed

lemma aggregate_unfold:
  obtains h1 m' where "fold (aggregate_step e) (map snd sd) (h, []) = (h1, m')"
    and "aggregate e sd h = fold transpose_step (map snd m') (h1, [])"
proof -
  obtain h1 m' where "fold (aggregate_step e) (map snd sd) (h, []) = (h1, m')" by force
  then show ?thesis using that by (simp add: aggregate_def)
qed

lemma aggregate_price:
  "price (fst (aggregate e sd h) x) = price (h x) \<and> vbbo (fst (aggregate e sd h) x) = vbbo (h x)"
proof -
  obtain h1 m' where 1: "fold (aggregate_step e) (map snd sd) (h, []) = (h1, m')"
    and 2: "aggregate e sd h = fold transpose_step (map snd m') (h1, [])"
    by (rule aggregate_unfold)
  show ?thesis
    using aggregate_fold_price [OF 1, of x] by (simp add: 2 transpose_fold_heap)
qed

lemma aggregate_frame:
  assumes "x \<notin> snd ` set sd"
  shows "fst (aggregate e sd h) x = h x"
proof -
  obtain h1 m' where 1: "fold (aggregate_step e) (map snd sd) (h, []) = (h1, m')"
    and 2: "aggregate e sd h = fold transpose_step (map snd m') (h1, [])"
    by (rule aggregate_unfold)
  have "snd ` set m' \<subseteq> snd ` set sd" using aggregate_fold_seeds [OF 1] by simp
  then have x: "x \<notin> snd ` set m'" using assms by blast
  then have "h1 x = h x" by (rule aggregate_fold_frame [OF 1])
  then show ?thesis using x by (simp add: 2 transpose_fold_heap)
qed

lemma aggregate_refs:
  "snd ` set (snd (aggregate e sd h)) \<subseteq> snd ` set sd"
proof -
  obtain h1 m' where 1: "fold (aggregate_step e) (map snd sd) (h, []) = (h1, m')"
    and 2: "aggregate e sd h = fold transpose_step (map snd m') (h1, [])"
    by (rule aggregate_unfold)
  have "snd ` set m' \<subseteq> snd ` set sd" using aggregate_fold_seeds [OF 1] by simp
  moreover have "snd ` set (snd (aggregate e sd h)) \<subseteq> snd ` set m'"
    using transpose_fold_refs [of "map snd m'" h1 "[]"] by (simp add: 2)
  ultimately show ?thesis by blast
qed

lemma aggregate_seed:
  assumes "distinct (map snd sd)"
    and "List.find (\<lambda>r. roundedPrice e h r = roundedPrice e h s) (map snd sd) = Some s"
  shows "qty (fst (aggregate e sd h) s)
           = sum_list (map (\<lambda>r. parseInt (qty (h r))) (group e h (roundedPrice e h s) (map snd sd)))"
    and "venue (fst (aggregate e sd h) s) = []"
    and "key (fst (aggregate e sd h) s)
           = (if venue (h s) = [] then key (h (last (group e h (roundedPrice e h s) (map snd sd))))
              else key (h s))"
proof -
  define rs where "rs = map snd sd"
  define k where "k = roundedPrice e h s"
  obtain i where i: "i < length rs" "s = rs ! i" "\<forall>j<i. roundedPrice e h (rs ! j) \<noteq> k"
    using assms(2) unfolding find_Some_iff rs_def k_def by blast
  define pre where "pre = take i rs"
  define post where "post = drop (Suc i) rs"
  have split: "rs = pre @ s # post"
    using i(1,2) by (simp add: pre_def post_def id_take_nth_drop)
  have dist: "distinct rs" using assms(1) by (simp add: rs_def)
  have s_pre: "s \<notin> set pre" and s_post: "s \<notin> set post" and dpost: "distinct post"
    and pre_post: "set pre \<inter> set post = {}"
    using dist unfolding split by auto
  have pre_k: "\<forall>x\<in>set pre. roundedPrice e h x \<noteq> k"
  proof
    fix x assume "x \<in> set pre"
    then obtain j where "j < length pre" "x = pre ! j" by (auto simp: in_set_conv_nth)
    then have "j < i" "x = rs ! j" by (simp_all add: pre_def)
    then show "roundedPrice e h x \<noteq> k" using i(3) by simp
  qed
  obtain ha ma where A: "fold (aggregate_step e) pre (h, []) = (ha, ma)" by force
  have rpa: "roundedPrice e ha = roundedPrice e h" by (rule aggregate_fold_rounded [OF A])
  have mapa: "map_of ma k' = List.find (\<lambda>r. roundedPrice e h r = k') pre" for k'
    using aggregate_fold_map [OF A, of k'] by simp
  have none: "map_of ma (roundedPrice e ha s) = None"
    using pre_k by (simp add: mapa rpa k_def [symmetric] find_None_iff)
  have seeds_a: "snd ` set ma \<subseteq> set pre" using aggregate_fold_seeds [OF A] by simp
  have ha_eq: "ha x = h x" if "x \<notin> set pre" for x
    using aggregate_fold_frame [OF A, of x] seeds_a that by blast
  define hb where "hb = ha(s := (ha s)\<lparr>qty := parseInt (qty (ha s))\<rparr>)"
  define mb where "mb = ma @ [(k, s)]"
  have B: "aggregate_step e s (ha, ma) = (hb, mb)"
    using aggregate_step_new [OF none] by (simp add: hb_def mb_def rpa k_def)
  obtain h1 m' where C: "fold (aggregate_step e) post (hb, mb) = (h1, m')" by force
  have all: "fold (aggregate_step e) rs (h, []) = (h1, m')"
    by (simp add: split A B C)
  have rpb: "roundedPrice e hb = roundedPrice e h"
    using aggregate_step_rounded [OF B] rpa by simp
  have consb: "\<forall>k' s'. map_of mb k' = Some s' \<longrightarrow> roundedPrice e hb s' = k'"
    unfolding rpb mb_def
    by (auto simp: map_add_def mapa k_def find_Some_iff split: option.splits if_splits)
  have mb_k: "map_of mb k = Some s"
    using none by (simp add: mb_def map_add_def rpa k_def)
  have disj: "set post \<inter> snd ` set mb = {}"
    using seeds_a pre_post s_post by (auto simp: mb_def)
  have seed: "qty (h1 s) = qty (hb s) + sum_list (map (\<lambda>r. parseInt (qty (hb r))) (group e hb k post))"
    and seedk: "key (h1 s) = (if venue (hb s) = [] \<and> group e hb k post \<noteq> []
                       then key (hb (last (group e hb k post))) else key (hb s))"
    using aggregate_fold_seed [OF C dpost disj consb mb_k] by simp_all
  have hb_s: "qty (hb s) = parseInt (qty (h s))" "venue (hb s) = venue (h s)" "key (hb s) = key (h s)"
    using ha_eq [OF s_pre] by (simp_all add: hb_def)
  have hb_post: "hb x = h x" if "x \<in> set post" for x
    using that ha_eq [of x] pre_post s_post by (auto simp: hb_def)
  have gpost: "group e hb k post = group e h k post" by (rule group_cong [OF rpb])
  have grs: "group e h k rs = s # group e h k post"
    using pre_k by (simp add: split group_def k_def)
  have same: "map (\<lambda>r. parseInt (qty (hb r))) (group e h k post)
      = map (\<lambda>r. parseInt (qty (h r))) (group e h k post)"
    using hb_post group_subset [of e h k post] by (intro map_cong) auto
  have lastg: "hb (last (group e h k post)) = h (last (group e h k post))"
    if "group e h k post \<noteq> []"
  proof -
    from that have "last (group e h k post) \<in> set (group e h k post)" by (rule last_in_set)
    then show ?thesis using hb_post group_subset by blast
  qed
  obtain h1' m'' where 1: "fold (aggregate_step e) (map snd sd) (h, []) = (h1', m'')"
    and 2: "aggregate e sd h = fold transpose_step (map snd m'') (h1', [])"
    by (rule aggregate_unfold)
  have eq: "h1' = h1" "m'' = m'" using 1 all by (simp_all add: rs_def)
  have "(k, s) \<in> set mb" by (simp add: mb_def)
  then have "(k, s) \<in> set m'" using aggregate_fold_seeds [OF C] by blast
  then have s_seed: "s \<in> snd ` set m'" by (auto intro: rev_image_eqI)
  have final: "fst (aggregate e sd h) s = (h1 s)\<lparr>venue := []\<rparr>"
    using s_seed by (simp add: 2 eq transpose_fold_heap)
  show "qty (fst (aggregate e sd h) s)
           = sum_list (map (\<lambda>r. parseInt (qty (h r))) (group e h (roundedPrice e h s) (map snd sd)))"
    unfolding k_def [symmetric] rs_def [symmetric]
    by (simp add: final seed gpost same grs hb_s)
  show "venue (fst (aggregate e sd h) s) = []" by (simp add: final)
  show "key (fst (aggregate e sd h) s)
           = (if venue (h s) = [] then key (h (last (group e h (roundedPrice e h s) (map snd sd))))
              else key (h s))"
    unfolding k_def [symmetric] rs_def [symmetric]
    using lastg by (simp add: final seedk gpost grs hb_s)
qed

section \<open>Books that the calls produce\<close>

lemma update_distinct_values:
  "distinct (map snd al) \<Longrightarrow> v \<notin> snd ` set al \<Longrightarrow> distinct (map snd (AList.update k v al))"
proof (induction al)
  case Nil
  then show ?case by simp
next
  case (Cons x al)
  have "snd x \<notin> snd ` set (AList.update k v al)"
    using update_values [of k v al] Cons.prems by auto
  then show ?case using Cons by auto
qed

lemma delete_values: "snd ` set (AList.delete k al) \<subseteq> snd ` set al"
  by (auto simp: AList.delete_eq)

lemma delete_distinct_values: "distinct (map snd al) \<Longrightarrow> distinct (map snd (AList.delete k al))"
  by (simp add: AList.delete_eq distinct_map_filter)

lemma setSideData_wf:
  assumes "distinct (map snd sd)" "distinct (map fst sd)" "r \<notin> snd ` set sd"
  shows "distinct (map snd (setSideData sd newRow r)) \<and> distinct (map fst (setSideData sd newRow r)) \<and>
         snd ` set (setSideData sd newRow r) \<subseteq> insert r (snd ` set sd)"
  using assms update_values [of "key newRow" r sd] delete_values [of "key newRow" sd]
  by (auto simp: setSideData_def update_distinct_values delete_distinct_values
      AList.distinct_update AList.distinct_delete)

lemma wf_BookData: "wf_book BookData"
  by (simp add: wf_book_def BookData_def)

lemma wf_resetData: "wf_book b \<Longrightarrow> wf_book (resetData b)"
  by (simp add: wf_book_def resetData_def)

lemma redisplay_sides:
  "buySide (fst (redisplay e c b)) = buySide b \<and> sellSide (fst (redisplay e c b)) = sellSide b \<and>
   nextRef (fst (redisplay e c b)) = nextRef b"
  by (simp add: redisplay_def split_def Let_def)

lemma sortedBuy_redisplay:
  "sortedBuy (fst (redisplay e c b))
     = (if c then take 5 (sortValues e (fst (aggregate e (buySide b) (heap b)))
                            (snd (aggregate e (buySide b) (heap b))) compareBuy)
        else sortValues e (heap b) (buySide b) compareBuy)"
  by (simp add: redisplay_def split_def Let_def)

lemma sortedSell_redisplay:
  "sortedSell (fst (redisplay e c b))
     = (if c then take 5 (sortValues e (fst (aggregate e (sellSide b) (fst (aggregate e (buySide b) (heap b)))))
                            (snd (aggregate e (sellSide b) (fst (aggregate e (buySide b) (heap b)))))
                            compareSell)
        else sortValues e (heap b) (sellSide b) compareSell)"
  by (simp add: redisplay_def split_def Let_def)

lemma sortValues_mset:
  "sort_permutes e \<Longrightarrow> mset (sortValues e h d cmp) = mset (map snd d)"
  by (simp add: sort_permutes_def sortValues_def)

lemma sortValues_set:
  "sort_permutes e \<Longrightarrow> set (sortValues e h d cmp) = snd ` set d"
  by (metis sortValues_mset set_mset_mset set_map)

lemma wf_redisplay:
  assumes "sort_permutes e" "wf_book b"
  shows "wf_book (fst (redisplay e c b))"
proof -
  have B: "set (sortedBuy (fst (redisplay e c b))) \<subseteq> snd ` set (buySide b)"
  proof (cases c)
    case True
    have "set (sortedBuy (fst (redisplay e c b))) \<subseteq> snd ` set (snd (aggregate e (buySide b) (heap b)))"
      using set_take_subset [of 5 "sortValues e (fst (aggregate e (buySide b) (heap b)))
          (snd (aggregate e (buySide b) (heap b))) compareBuy"]
      by (simp only: True sortedBuy_redisplay if_True sortValues_set [OF assms(1)])
    then show ?thesis using aggregate_refs [of e "buySide b" "heap b"] by blast
  next
    case False
    then show ?thesis by (simp add: sortedBuy_redisplay sortValues_set [OF assms(1)])
  qed
  have S: "set (sortedSell (fst (redisplay e c b))) \<subseteq> snd ` set (sellSide b)"
  proof (cases c)
    case True
    have "set (sortedSell (fst (redisplay e c b)))
        \<subseteq> snd ` set (snd (aggregate e (sellSide b) (fst (aggregate e (buySide b) (heap b)))))"
      using set_take_subset [of 5 "sortValues e (fst (aggregate e (sellSide b) (fst (aggregate e (buySide b) (heap b)))))
          (snd (aggregate e (sellSide b) (fst (aggregate e (buySide b) (heap b))))) compareSell"]
      by (simp only: True sortedSell_redisplay if_True sortValues_set [OF assms(1)])
    then show ?thesis
      using aggregate_refs [of e "sellSide b" "fst (aggregate e (buySide b) (heap b))"] by blast
  next
    case False
    then show ?thesis by (simp add: sortedSell_redisplay sortValues_set [OF assms(1)])
  qed
  have "\<forall>r\<in>set (sortedBuy (fst (redisplay e c b))) \<union> set (sortedSell (fst (redisplay e c b))).
      r < nextRef b"
    using assms(2) B S unfolding wf_book_def by blast
  then show ?thesis
    using assms(2) unfolding wf_book_def by (simp add: redisplay_sides ball_Un)
qed

lemma setSideData_fresh_wf:
  assumes "distinct (map snd sd)" "distinct (map fst sd)" "distinct (map snd other)"
    and "snd ` set sd \<inter> snd ` set other = {}"
    and "\<forall>x\<in>snd ` set sd \<union> snd ` set other \<union> A. x < n"
  shows "distinct (map snd (setSideData sd newRow n)) \<and>
         distinct (map fst (setSideData sd newRow n)) \<and>
         snd ` set (setSideData sd newRow n) \<inter> snd ` set other = {} \<and>
         (\<forall>x\<in>snd ` set (setSideData sd newRow n) \<union> snd ` set other \<union> A. x < n + 1)"
proof -
  have fresh: "n \<notin> snd ` set sd" "n \<notin> snd ` set other" using assms(5) by auto
  note W = setSideData_wf [OF assms(1,2) fresh(1), of newRow]
  have sub: "snd ` set (setSideData sd newRow n) \<subseteq> insert n (snd ` set sd)" using W by simp
  have 1: "snd ` set (setSideData sd newRow n) \<inter> snd ` set other = {}"
    using sub assms(4) fresh(2) by blast
  have 2: "\<forall>x\<in>snd ` set (setSideData sd newRow n) \<union> snd ` set other \<union> A. x < n + 1"
  proof
    fix x assume "x \<in> snd ` set (setSideData sd newRow n) \<union> snd ` set other \<union> A"
    then have "x = n \<or> x \<in> snd ` set sd \<union> snd ` set other \<union> A" using sub by blast
    then show "x < n + 1" using assms(5) by (auto simp: less_Suc_eq)
  qed
  show ?thesis using W 1 2 by blast
qed

lemma wf_updateBook:
  assumes "wf_book b"
  shows "wf_book (updateBook lvl sd q p v b)"
proof -
  define newRow where "newRow = createRow p q v lvl"
  have d: "distinct (map snd (buySide b))" "distinct (map snd (sellSide b))"
    "snd ` set (buySide b) \<inter> snd ` set (sellSide b) = {}"
    and k: "distinct (map fst (buySide b))" "distinct (map fst (sellSide b))"
    using assms by (simp_all add: wf_book_def)
  have bound: "\<forall>x\<in>snd ` set (buySide b) \<union> snd ` set (sellSide b)
      \<union> (set (sortedBuy b) \<union> set (sortedSell b)). x < nextRef b"
    using assms by (simp add: wf_book_def Un_assoc)
  show ?thesis
  proof (cases "sd = BUY_SIDE")
    case True
    then have eq: "updateBook lvl sd q p v b
        = b\<lparr>heap := (heap b)(nextRef b := newRow), nextRef := nextRef b + 1,
            buySide := setSideData (buySide b) newRow (nextRef b)\<rparr>"
      by (simp add: updateBook_def Let_def newRow_def)
    from setSideData_fresh_wf [OF d(1) k(1) d(2) d(3) bound, of newRow]
    show ?thesis
      unfolding eq wf_book_def using k(2) d(2) by (simp add: Un_assoc)
  next
    case False
    then have eq: "updateBook lvl sd q p v b
        = b\<lparr>heap := (heap b)(nextRef b := newRow), nextRef := nextRef b + 1,
            sellSide := setSideData (sellSide b) newRow (nextRef b)\<rparr>"
      by (simp add: updateBook_def Let_def newRow_def)
    have d3: "snd ` set (sellSide b) \<inter> snd ` set (buySide b) = {}" using d(3) by blast
    have bound': "\<forall>x\<in>snd ` set (sellSide b) \<union> snd ` set (buySide b)
      \<union> (set (sortedBuy b) \<union> set (sortedSell b)). x < nextRef b"
      using bound by blast
    from setSideData_fresh_wf [OF d(2) k(2) d(1) d3 bound', of newRow]
    show ?thesis
      unfolding eq wf_book_def using k(1) d(1) by (simp add: Un_assoc Int_commute ball_Un) 
  qed
qed

lemma wf_exec: "sort_permutes e \<Longrightarrow> wf_book b \<Longrightarrow> wf_book (exec e c b)"
  by (cases c) (simp_all add: wf_updateBook wf_redisplay wf_resetData)

lemma wf_run: "sort_permutes e \<Longrightarrow> wf_book b \<Longrightarrow> wf_book (run e cmds b)"
  unfolding run_def by (induction cmds arbitrary: b) (simp_all add: wf_exec)

section \<open>The depth of the display\<close>

lemma mset_insert_by: "mset (insert_by cmp x ys) = add_mset x (mset ys)"
  by (induction ys) simp_all

lemma mset_insertion_sort: "mset (insertion_sort cmp xs) = mset xs"
  by (induction xs) (simp_all add: insertion_sort_def mset_insert_by)

lemma sort_permutes_example: "sort_permutes example_env"
  by (simp add: sort_permutes_def example_env_def mset_insertion_sort)

lemma length_redisplaySide: "length (redisplaySide h rs sd) = length rs"
  by (simp add: redisplaySide_def)

lemma row_calls_redisplaySide: "filter is_row_call (redisplaySide h rs sd) = redisplaySide h rs sd"
  by (simp add: redisplaySide_def filter_map comp_def split_def)

lemma redisplay_row_calls:
  "length (filter is_row_call (snd (redisplay e c b)))
     = length (sortedBuy (fst (redisplay e c b))) + length (sortedSell (fst (redisplay e c b)))"
  by (simp add: redisplay_def split_def Let_def row_calls_redisplaySide length_redisplaySide)

text \<open>
  Claim C6. After a consolidated pass each sorted array has at most five entries: it is
  the first five of the sorted aggregated levels when there are more. An unconsolidated
  pass truncates nothing: each sorted array holds exactly the objects of its side, and
  the callback is called once for every one of them.
\<close>

theorem redisplay_depth:
  "length (sortedBuy (fst (redisplay e True b))) \<le> 5 \<and>
   length (sortedSell (fst (redisplay e True b))) \<le> 5 \<and>
   length (filter is_row_call (snd (redisplay e c b)))
     = length (sortedBuy (fst (redisplay e c b))) + length (sortedSell (fst (redisplay e c b))) \<and>
   (sort_permutes e \<longrightarrow>
      length (sortedBuy (fst (redisplay e True b)))
        = min 5 (length (snd (aggregate e (buySide b) (heap b)))) \<and>
      length (sortedSell (fst (redisplay e True b)))
        = min 5 (length (snd (aggregate e (sellSide b) (fst (aggregate e (buySide b) (heap b)))))) \<and>
      mset (sortedBuy (fst (redisplay e False b))) = mset (map snd (buySide b)) \<and>
      mset (sortedSell (fst (redisplay e False b))) = mset (map snd (sellSide b)) \<and>
      length (sortedBuy (fst (redisplay e False b))) = length (buySide b) \<and>
      length (sortedSell (fst (redisplay e False b))) = length (sellSide b))"
proof -
  have len: "length (sortValues e h d cmp) = length d" if "sort_permutes e" for h d cmp
    using sortValues_mset [OF that, of h d cmp] by (metis length_map size_mset)
  show ?thesis
    using redisplay_row_calls [of e c b]
    by (auto simp: sortedBuy_redisplay sortedSell_redisplay sortValues_mset len)
qed

theorem redisplay_depth_witness:
  "sort_permutes example_env \<and> length (buySide deep_book) = 6 \<and>
   length (sortedBuy (fst (redisplay example_env True deep_book))) = 5 \<and>
   length (sortedBuy (fst (redisplay example_env False deep_book))) = 6"
proof -
  have six: "length (buySide deep_book) = 6"
    by (simp add: deep_book_def eval_defs eval_more)
  have agg: "length (snd (aggregate example_env (buySide deep_book) (heap deep_book))) = 6"
    by (simp add: deep_book_def eval_defs eval_more)
  show ?thesis
    using redisplay_depth [of example_env deep_book True] sort_permutes_example six agg by simp
qed

section \<open>The VWAP quote\<close>

lemma vwap_loop_cong:
  "\<forall>r\<in>set rs. h r = h' r \<Longrightarrow>
   vwap_loop e h rs idx rem used val lvl c = vwap_loop e h' rs idx rem used val lvl c"
  by (induction rs arbitrary: idx rem used val lvl c) (simp_all add: Let_def)

lemma calculateVwapForQty_cong:
  "\<forall>r\<in>set rs. h r = h' r \<Longrightarrow> calculateVwapForQty e q rs h = calculateVwapForQty e q rs h'"
  by (simp add: calculateVwapForQty_def vwap_loop_cong [of rs h h'])

lemma getVwapUpdate_updateBook:
  assumes "wf_book b"
  shows "getVwapUpdate e n q (updateBook lvl sd qq p v b) = getVwapUpdate e n q b"
proof -
  have s: "sortedBuy (updateBook lvl sd qq p v b) = sortedBuy b"
    "sortedSell (updateBook lvl sd qq p v b) = sortedSell b"
    by (simp_all add: updateBook_def Let_def)
  have h: "heap (updateBook lvl sd qq p v b) r = heap b r" if "r < nextRef b" for r
    using that by (simp add: updateBook_def Let_def)
  have "\<forall>r\<in>set (sortedBuy b). heap (updateBook lvl sd qq p v b) r = heap b r"
    "\<forall>r\<in>set (sortedSell b). heap (updateBook lvl sd qq p v b) r = heap b r"
    using assms h by (simp_all add: wf_book_def)
  then show ?thesis
    by (simp add: getVwapUpdate_def s
        calculateVwapForQty_cong [of _ "heap (updateBook lvl sd qq p v b)" "heap b"])
qed

lemma getVwapUpdate_updates:
  "wf_book b \<Longrightarrow> \<forall>c\<in>set ups. is_update c \<Longrightarrow>
   getVwapUpdate e n q (run e ups b) = getVwapUpdate e n q b"
proof (induction ups arbitrary: b)
  case Nil
  then show ?case by (simp add: run_def)
next
  case (Cons c ups)
  then obtain lvl sd qq p v where c: "c = UpdateBook lvl sd qq p v"
    by (cases c) simp_all
  have "wf_book (updateBook lvl sd qq p v b)" using Cons.prems(1) by (rule wf_updateBook)
  then have "getVwapUpdate e n q (run e ups (updateBook lvl sd qq p v b))
      = getVwapUpdate e n q (updateBook lvl sd qq p v b)"
    using Cons.IH Cons.prems(2) by simp
  then show ?case
    using getVwapUpdate_updateBook [OF Cons.prems(1)] by (simp add: run_def c)
qed

lemma snapshot_empty_run:
  "sortedBuy b = [] \<and> sortedSell b = [] \<Longrightarrow> \<forall>c\<in>set cmds. \<not> is_redisplay c \<Longrightarrow>
   sortedBuy (run e cmds b) = [] \<and> sortedSell (run e cmds b) = []"
proof (induction cmds arbitrary: b)
  case Nil
  then show ?case by (simp add: run_def)
next
  case (Cons c cmds)
  have "sortedBuy (exec e c b) = [] \<and> sortedSell (exec e c b) = []"
    using Cons.prems by (cases c) (simp_all add: updateBook_def Let_def resetData_def)
  from Cons.IH [OF this] Cons.prems(2) show ?case by (simp add: run_def)
qed

lemma getVwapUpdate_empty:
  "sortedBuy b = [] \<and> sortedSell b = [] \<Longrightarrow> getVwapUpdate e n q b = empty_quote n q"
  by (simp add: getVwapUpdate_def calculateVwapForQty_def calculatePrice_def
      new_VBBOMarkerOrderChecker_def empty_quote_def)

text \<open>
  Claim C10. \<open>getVwapUpdate\<close> reads the two sorted arrays that the last display pass
  left, not the sides. After any calls without a display pass, from the fresh book or
  from any book that has just been reset, the quote for every quantity is
  \<open>{qty = 0, price = 0, level = -1}\<close> on both sides; and after any calls whatever, further
  level updates leave the quote as it was.
\<close>

theorem vwap_quote_reads_snapshot:
  "((\<forall>c\<in>set cmds. \<not> is_redisplay c) \<longrightarrow>
      getVwapUpdate e n q (run e cmds BookData) = empty_quote n q \<and>
      getVwapUpdate e n q (run e cmds (resetData b)) = empty_quote n q) \<and>
   (sort_permutes e \<and> (\<forall>c\<in>set ups. is_update c) \<longrightarrow>
      getVwapUpdate e n q (run e (pre @ ups) BookData) = getVwapUpdate e n q (run e pre BookData))"
proof -
  have 1: "getVwapUpdate e n q (run e cmds BookData) = empty_quote n q"
    if "\<forall>c\<in>set cmds. \<not> is_redisplay c"
    using snapshot_empty_run [of BookData cmds e] that
    by (intro getVwapUpdate_empty) (simp add: BookData_def)
  have 2: "getVwapUpdate e n q (run e cmds (resetData b)) = empty_quote n q"
    if "\<forall>c\<in>set cmds. \<not> is_redisplay c"
    using snapshot_empty_run [of "resetData b" cmds e] that
    by (intro getVwapUpdate_empty) (simp add: resetData_def)
  have 3: "getVwapUpdate e n q (run e (pre @ ups) BookData) = getVwapUpdate e n q (run e pre BookData)"
    if "sort_permutes e" "\<forall>c\<in>set ups. is_update c"
  proof -
    have "wf_book (run e pre BookData)" using that(1) wf_BookData by (rule wf_run)
    from getVwapUpdate_updates [OF this that(2)] show ?thesis by (simp add: run_def)
  qed
  show ?thesis using 1 2 3 by blast
qed

theorem vwap_quote_reads_snapshot_witness:
  "sort_permutes example_env \<and>
   getVwapUpdate example_env ''q'' 5 (run example_env [UpdateBook 1 1 10 100 ''A''] BookData)
     = empty_quote ''q'' 5 \<and>
   getVwapUpdate example_env ''q'' 5
       (run example_env [UpdateBook 1 1 10 100 ''A''] (resetData (run example_env stale_quote_cmds BookData)))
     = empty_quote ''q'' 5 \<and>
   getVwapUpdate example_env ''q'' 5 (run example_env (stale_quote_cmds @ [UpdateBook 1 1 20 101 ''A'']) BookData)
     = getVwapUpdate example_env ''q'' 5 (run example_env stale_quote_cmds BookData) \<and>
   buyPrice (getVwapUpdate example_env ''q'' 5 (run example_env stale_quote_cmds BookData)) = Finite 100"
proof -
  have u: "\<forall>c\<in>set [UpdateBook 1 1 10 100 ''A'']. \<not> is_redisplay c" by simp
  have v: "\<forall>c\<in>set [UpdateBook 1 1 20 101 ''A'']. is_update c" by simp
  have p: "buyPrice (getVwapUpdate example_env ''q'' 5 (run example_env stale_quote_cmds BookData)) = Finite 100"
    by (simp add: stale_quote_cmds_def getVwapUpdate_def calculateVwapForQty_def calculatePrice_def
        eval_defs eval_more)
  show ?thesis
    using vwap_quote_reads_snapshot [of "[UpdateBook 1 1 10 100 ''A'']" example_env "''q''" 5
        "run example_env stale_quote_cmds BookData" "[UpdateBook 1 1 20 101 ''A'']" stale_quote_cmds]
      u v p sort_permutes_example
    by simp
qed

section \<open>What a consolidated display does to the storage\<close>

lemma heap_redisplay_True:
  "heap (fst (redisplay e True b))
     = calculateVBBO e (sellSide b) (sortedSell (fst (redisplay e True b)))
         (calculateVBBO e (buySide b) (sortedBuy (fst (redisplay e True b)))
            (fst (aggregate e (sellSide b) (fst (aggregate e (buySide b) (heap b))))))"
  by (simp add: redisplay_def split_def Let_def)

lemma calculateVBBO_fields:
  "price (calculateVBBO e sd rs h x) = price (h x) \<and> qty (calculateVBBO e sd rs h x) = qty (h x) \<and>
   venue (calculateVBBO e sd rs h x) = venue (h x) \<and> key (calculateVBBO e sd rs h x) = key (h x)"
  by (simp add: calculateVBBO_def calculateVBBO_rows_fields)

lemma aggregate_rounded: "roundedPrice e (fst (aggregate e sd h)) = roundedPrice e h"
  using aggregate_price [of e sd h] by (simp add: roundedPrice_def fun_eq_iff)

text \<open>
  Claim C9. A consolidated display pass writes to the stored objects. In a book whose
  sides hold distinct objects, take the object \<open>s\<close> that a side stores first among
  those of its rounded price. After the pass both sides still map the same keys to the
  same objects, but \<open>s\<close> has the sum of the (integer) quantities of all objects of that
  side at its rounded price as its quantity and the empty venue; and when its venue
  was empty before, its \<^verbatim>\<open>key\<close> field is that of the last object of the group. Its
  price is unchanged.
\<close>

theorem consolidated_redisplay_mutates_storage:
  assumes "distinct (map snd (buySide b) @ map snd (sellSide b))"
    and "sd = buySide b \<or> sd = sellSide b"
    and "List.find (\<lambda>r. roundedPrice e (heap b) r = roundedPrice e (heap b) s) (map snd sd) = Some s"
  shows "buySide (fst (redisplay e True b)) = buySide b \<and>
         sellSide (fst (redisplay e True b)) = sellSide b \<and>
         qty (heap (fst (redisplay e True b)) s)
           = sum_list (map (\<lambda>r. parseInt (qty (heap b r)))
               (group e (heap b) (roundedPrice e (heap b) s) (map snd sd))) \<and>
         venue (heap (fst (redisplay e True b)) s) = [] \<and>
         key (heap (fst (redisplay e True b)) s)
           = (if venue (heap b s) = []
              then key (heap b (last (group e (heap b) (roundedPrice e (heap b) s) (map snd sd))))
              else key (heap b s)) \<and>
         price (heap (fst (redisplay e True b)) s) = price (heap b s)"
proof -
  define h0 where "h0 = heap b"
  define h1 where "h1 = fst (aggregate e (buySide b) h0)"
  define h2 where "h2 = fst (aggregate e (sellSide b) h1)"
  define k where "k = roundedPrice e h0 s"
  define g where "g = group e h0 k (map snd sd)"
  have hp: "heap (fst (redisplay e True b))
      = calculateVBBO e (sellSide b) (sortedSell (fst (redisplay e True b)))
          (calculateVBBO e (buySide b) (sortedBuy (fst (redisplay e True b))) h2)"
    unfolding h2_def h1_def h0_def by (rule heap_redisplay_True)
  have fields: "qty (heap (fst (redisplay e True b)) s) = qty (h2 s)"
    "venue (heap (fst (redisplay e True b)) s) = venue (h2 s)"
    "key (heap (fst (redisplay e True b)) s) = key (h2 s)"
    "price (heap (fst (redisplay e True b)) s) = price (h2 s)"
    by (simp_all add: hp calculateVBBO_fields)
  have price: "price (h2 s) = price (h0 s)"
    using aggregate_price [of e "sellSide b" h1 s] aggregate_price [of e "buySide b" h0 s]
    by (simp add: h2_def h1_def)
  have s_in: "s \<in> snd ` set sd"
    using assms(3) unfolding find_Some_iff by force
  have disj: "snd ` set (buySide b) \<inter> snd ` set (sellSide b) = {}"
    and db: "distinct (map snd (buySide b))" and ds: "distinct (map snd (sellSide b))"
    using assms(1) by auto
  have seed0: "List.find (\<lambda>r. roundedPrice e h0 r = roundedPrice e h0 s) (map snd sd) = Some s"
    using assms(3) by (simp add: h0_def)
  have main: "qty (h2 s) = sum_list (map (\<lambda>r. parseInt (qty (h0 r))) g) \<and> venue (h2 s) = [] \<and>
      key (h2 s) = (if venue (h0 s) = [] then key (h0 (last g)) else key (h0 s))"
  proof (cases "sd = buySide b")
    case True
    have "s \<notin> snd ` set (sellSide b)" using s_in disj True by blast
    then have "h2 s = h1 s" unfolding h2_def by (rule aggregate_frame)
    then show ?thesis
      using aggregate_seed [OF db seed0 [unfolded True]]
      by (simp add: h1_def g_def k_def True)
  next
    case False
    then have sd: "sd = sellSide b" using assms(2) by simp
    have same: "h1 r = h0 r" if "r \<in> snd ` set (sellSide b)" for r
    proof -
      have "r \<notin> snd ` set (buySide b)" using that disj by blast
      then show ?thesis unfolding h1_def by (rule aggregate_frame)
    qed
    have rp: "roundedPrice e h1 = roundedPrice e h0"
      unfolding h1_def by (rule aggregate_rounded)
    have seed1: "List.find (\<lambda>r. roundedPrice e h1 r = roundedPrice e h1 s) (map snd (sellSide b)) = Some s"
      using seed0 by (simp add: rp sd)
    have g1: "group e h1 (roundedPrice e h1 s) (map snd (sellSide b)) = g"
      by (simp add: group_def rp g_def k_def sd)
    have g_sub: "set g \<subseteq> snd ` set (sellSide b)"
      using group_subset [of e h0 k "map snd sd"] by (simp add: g_def sd)
    have "s \<in> set g" using s_in by (simp add: g_def group_def k_def)
    then have g_ne: "g \<noteq> []" by auto
    then have "last g \<in> set g" by (rule last_in_set)
    then have lastg: "h1 (last g) = h0 (last g)" using g_sub same by blast
    have "\<forall>x\<in>set g. h1 x = h0 x" using g_sub same by blast
    then have sameg: "map (\<lambda>r. parseInt (qty (h1 r))) g = map (\<lambda>r. parseInt (qty (h0 r))) g"
      by (intro map_cong) simp_all
    have s1: "h1 s = h0 s" using s_in same by (simp add: sd)
    show ?thesis
      using aggregate_seed [OF ds seed1]
      by (simp add: h2_def [symmetric] g1 sameg s1 lastg)
  qed
  show ?thesis
    using main price
    by (simp add: redisplay_sides fields g_def k_def h0_def)
qed

theorem consolidated_redisplay_mutates_storage_witness:
  "distinct (map snd (buySide two_venue_book) @ map snd (sellSide two_venue_book)) \<and>
   List.find (\<lambda>r. roundedPrice example_env (heap two_venue_book) r
                   = roundedPrice example_env (heap two_venue_book) 0)
     (map snd (buySide two_venue_book)) = Some 0 \<and>
   buySide two_venue_book = [((''A'', 1), 0), ((''B'', 1), 1)] \<and>
   qty (heap two_venue_book 0) = 5 \<and> venue (heap two_venue_book 0) = ''A'' \<and>
   buySide (fst (redisplay example_env True two_venue_book)) = buySide two_venue_book \<and>
   qty (heap (fst (redisplay example_env True two_venue_book)) 0) = 8 \<and>
   venue (heap (fst (redisplay example_env True two_venue_book)) 0) = []"
proof -
  have side: "buySide two_venue_book = [((''A'', 1), 0), ((''B'', 1), 1)]"
    "sellSide two_venue_book = []"
    by (simp_all add: two_venue_book_def eval_defs eval_more)
  have rows: "heap two_venue_book 0 = createRow 10 5 ''A'' 1"
    "heap two_venue_book (Suc 0) = createRow 10 3 ''B'' 1"
    by (simp_all add: two_venue_book_def eval_defs eval_more)
  have d: "distinct (map snd (buySide two_venue_book) @ map snd (sellSide two_venue_book))"
    by (simp add: side)
  have f: "List.find (\<lambda>r. roundedPrice example_env (heap two_venue_book) r
                   = roundedPrice example_env (heap two_venue_book) 0)
     (map snd (buySide two_venue_book)) = Some 0"
    by (simp add: side)
  show ?thesis
    using consolidated_redisplay_mutates_storage [OF d _ f] d f
    by (simp add: side rows group_def roundedPrice_def createRow_def parseInt_def)
qed

section \<open>Aggregating a consolidated side\<close>

lemma parseInt_small: "\<bar>q\<bar> < 1000000000000000000000 \<Longrightarrow> parseInt q = q"
  by (simp add: parseInt_def)

lemma parseInt_examples:
  "parseInt 8 = 8 \<and> parseInt (- 3) = - 3 \<and>
   parseInt 999999999999999999999 = 999999999999999999999 \<and>
   parseInt 1000000000000000000000 = 1 \<and> parseInt (- 25000000000000000000000) = - 2"
  by (simp add: parseInt_def leadingDigit.simps)

text \<open>On a fully consolidated side every row seeds a group of its own, and where the
  key fields of the rows are pairwise distinct every seed is filed under a key of its
  own: the store is left as it was and the result holds the same objects.\<close>

lemma aggregate_fold_consolidated:
  "distinct (map fst m @ map (roundedPrice e h) rs) \<Longrightarrow>
   \<forall>r\<in>set rs. \<bar>qty (h r)\<bar> < 1000000000000000000000 \<Longrightarrow>
   fold (aggregate_step e) rs (h, m) = (h, m @ map (\<lambda>r. (roundedPrice e h r, r)) rs)"
proof (induction rs arbitrary: m)
  case Nil
  then show ?case by simp
next
  case (Cons r rs)
  have "roundedPrice e h r \<notin> fst ` set m" using Cons.prems(1) by auto
  then have "map_of m (roundedPrice e h r) = None" by (simp add: map_of_eq_None_iff)
  moreover have "parseInt (qty (h r)) = qty (h r)"
    using Cons.prems(2) by (simp add: parseInt_small)
  ultimately have step: "aggregate_step e r (h, m) = (h, m @ [(roundedPrice e h r, r)])"
    by (simp add: aggregate_step_new)
  have "distinct (map fst (m @ [(roundedPrice e h r, r)]) @ map (roundedPrice e h) rs)"
    using Cons.prems(1) by auto
  moreover have "\<forall>r\<in>set rs. \<bar>qty (h r)\<bar> < 1000000000000000000000"
    using Cons.prems(2) by simp
  ultimately show ?case using Cons.IH by (simp add: step)
qed

lemma transpose_fold_consolidated:
  "distinct (map fst res @ map (\<lambda>r. key (h r)) rs) \<Longrightarrow> \<forall>r\<in>set rs. venue (h r) = [] \<Longrightarrow>
   fold transpose_step rs (h, res) = (h, res @ map (\<lambda>r. (key (h r), r)) rs)"
proof (induction rs arbitrary: res)
  case Nil
  then show ?case by simp
next
  case (Cons s rs)
  have "key (h s) \<notin> fst ` set res" using Cons.prems(1) by auto
  then have "map_of res (key (h s)) = None" by (simp add: map_of_eq_None_iff)
  moreover have "(h s)\<lparr>venue := []\<rparr> = h s" using Cons.prems(2) by (cases "h s") simp
  ultimately have step: "transpose_step s (h, res) = (h, res @ [(key (h s), s)])"
    by (simp add: transpose_step_def Let_def update_absent)
  have "distinct (map fst (res @ [(key (h s), s)]) @ map (\<lambda>r. key (h r)) rs)"
    using Cons.prems(1) by auto
  moreover have "\<forall>r\<in>set rs. venue (h r) = []" using Cons.prems(2) by simp
  ultimately show ?case using Cons.IH by (simp add: step)
qed

lemma aggregate_of_consolidated:
  assumes "fully_consolidated e h sd"
    and "distinct (map (\<lambda>(k, r). key (h r)) sd)"
    and "\<forall>(k, r)\<in>set sd. \<bar>qty (h r)\<bar> < 1000000000000000000000"
  shows "aggregate e sd h = (h, map (\<lambda>(k, r). (key (h r), r)) sd)"
    and "price_qty_pairs (fst (aggregate e sd h)) (snd (aggregate e sd h)) = price_qty_pairs h sd"
proof -
  have "distinct (map fst [] @ map (roundedPrice e h) (map snd sd))"
    using assms(1) by (simp add: fully_consolidated_def comp_def split_def)
  moreover have "\<forall>r\<in>set (map snd sd). \<bar>qty (h r)\<bar> < 1000000000000000000000"
    using assms(3) by auto
  ultimately have 1: "fold (aggregate_step e) (map snd sd) (h, [])
      = (h, [] @ map (\<lambda>r. (roundedPrice e h r, r)) (map snd sd))"
    by (rule aggregate_fold_consolidated)
  have "distinct (map fst [] @ map (\<lambda>r. key (h r)) (map snd sd))"
    using assms(2) by (simp add: comp_def split_def)
  moreover have "\<forall>r\<in>set (map snd sd). venue (h r) = []"
    using assms(1) by (auto simp: fully_consolidated_def)
  ultimately have 2: "fold transpose_step (map snd sd) (h, [])
      = (h, [] @ map (\<lambda>r. (key (h r), r)) (map snd sd))"
    by (rule transpose_fold_consolidated)
  show 3: "aggregate e sd h = (h, map (\<lambda>(k, r). (key (h r), r)) sd)"
    using 1 2 by (simp add: aggregate_def comp_def split_def)
  show "price_qty_pairs (fst (aggregate e sd h)) (snd (aggregate e sd h)) = price_qty_pairs h sd"
    by (simp add: 3 price_qty_pairs_def image_image split_def)
qed

text \<open>Every map that the aggregation returns is fully consolidated, with its entries
  under their own key, so that aggregating it once more returns it.\<close>

lemma update_entries: "set (AList.update k v al) \<subseteq> insert (k, v) (set al)"
  by (induction al) auto

lemma transpose_fold_entries:
  "(k, r) \<in> set (snd (fold transpose_step ss (h, res))) \<Longrightarrow>
   (k, r) \<in> set res \<or> (r \<in> set ss \<and> k = key (h r))"
proof (induction ss arbitrary: h res)
  case Nil
  then show ?case by simp
next
  case (Cons s ss)
  define h1 where "h1 = h(s := (h s)\<lparr>venue := []\<rparr>)"
  define res1 where "res1 = AList.update (key (h1 s)) s res"
  have step: "transpose_step s (h, res) = (h1, res1)"
    by (simp add: transpose_step_def Let_def h1_def res1_def)
  have keys: "key (h1 x) = key (h x)" for x by (simp add: h1_def)
  from Cons.prems have "(k, r) \<in> set (snd (fold transpose_step ss (h1, res1)))"
    by (simp add: step)
  from Cons.IH [OF this] have "(k, r) \<in> set res1 \<or> (r \<in> set ss \<and> k = key (h r))"
    by (simp add: keys)
  moreover have "set res1 \<subseteq> insert (key (h s), s) (set res)"
    using update_entries [of "key (h1 s)" s res] by (simp add: res1_def keys)
  ultimately show ?case by auto
qed

lemma transpose_fold_keys:
  "distinct (map fst res) \<Longrightarrow> distinct (map fst (snd (fold transpose_step ss (h, res))))"
  by (induction ss arbitrary: h res) (simp_all add: transpose_step_def Let_def AList.distinct_update)

lemma aggregate_consolidated:
  "fully_consolidated e (fst (aggregate e sd h)) (snd (aggregate e sd h)) \<and>
   stored_under_own_key (fst (aggregate e sd h)) (snd (aggregate e sd h))"
proof -
  obtain h1 m' where 1: "fold (aggregate_step e) (map snd sd) (h, []) = (h1, m')"
    and 2: "aggregate e sd h = fold transpose_step (map snd m') (h1, [])"
    by (rule aggregate_unfold)
  define ss where "ss = map snd m'"
  define h2 where "h2 = fst (aggregate e sd h)"
  define res where "res = snd (aggregate e sd h)"
  have keys_m: "distinct (map fst m')" using aggregate_fold_keys [OF 1] by simp
  have cons: "roundedPrice e h s = k" if "(k, s) \<in> set m'" for k s
  proof -
    have "map_of m' k = Some s" using that keys_m by simp
    then have "List.find (\<lambda>r. roundedPrice e h r = k) (map snd sd) = Some s"
      using aggregate_fold_map [OF 1, of k] by simp
    then show ?thesis unfolding find_Some_iff by blast
  qed
  have "map (roundedPrice e h) ss = map fst m'"
    unfolding ss_def using cons by (induction m') auto
  then have d_ss: "distinct (map (roundedPrice e h) ss)" using keys_m by simp
  then have inj: "inj_on (roundedPrice e h) (set ss)" by (simp add: distinct_map)
  have h2: "h2 x = (if x \<in> set ss then (h1 x)\<lparr>venue := []\<rparr> else h1 x)" for x
    by (simp add: h2_def 2 ss_def transpose_fold_heap)
  have rp2: "roundedPrice e h2 = roundedPrice e h"
    using aggregate_rounded [of e sd h] by (simp add: h2_def)
  have entries: "r \<in> set ss \<and> k = key (h1 r)" if "(k, r) \<in> set res" for k r
    using transpose_fold_entries [of k r ss h1 "[]"] that by (simp add: res_def 2 ss_def)
  have keys_res: "distinct (map fst res)"
    using transpose_fold_keys [of "[]" ss h1] by (simp add: res_def 2 ss_def)
  have eq: "map fst res = map (\<lambda>r. key (h1 r)) (map snd res)"
    using entries by (induction res) auto
  have "distinct (map (\<lambda>r. key (h1 r)) (map snd res))"
    unfolding eq [symmetric] by (rule keys_res)
  then have d_refs: "distinct (map snd res)"
    using distinct_map [of "\<lambda>r. key (h1 r)" "map snd res"] by blast
  have sub: "set (map snd res) \<subseteq> set ss" using entries by auto
  have "inj_on (roundedPrice e h) (set (map snd res))" using inj sub by (rule inj_on_subset)
  then have "distinct (map (roundedPrice e h) (map snd res))"
    using d_refs distinct_map [of "roundedPrice e h" "map snd res"] by blast
  then have 3: "distinct (map (\<lambda>(k, r). roundedPrice e h2 r) res)"
    by (simp add: rp2 comp_def split_def)
  have 4: "\<forall>(k, r)\<in>set res. venue (h2 r) = [] \<and> key (h2 r) = k"
    using entries by (auto simp: h2)
  show ?thesis
    using keys_res 3 4 unfolding fully_consolidated_def stored_under_own_key_def
      h2_def [symmetric] res_def [symmetric] by auto
qed

lemma aggregate_twice:
  assumes "\<forall>(k, r)\<in>set (snd (aggregate e sd h)).
      \<bar>qty (fst (aggregate e sd h) r)\<bar> < 1000000000000000000000"
  shows "aggregate e (snd (aggregate e sd h)) (fst (aggregate e sd h)) = aggregate e sd h"
proof -
  define h2 where "h2 = fst (aggregate e sd h)"
  define res where "res = snd (aggregate e sd h)"
  have c: "fully_consolidated e h2 res" and o: "stored_under_own_key h2 res"
    using aggregate_consolidated [of e sd h] by (simp_all add: h2_def res_def)
  have own: "map (\<lambda>(k, r). (key (h2 r), r)) res = res"
    using o unfolding stored_under_own_key_def by (induction res) auto
  have keq: "map (\<lambda>(k, r). key (h2 r)) res = map fst res"
    using o unfolding stored_under_own_key_def by (induction res) auto
  have "distinct (map fst res)" using c by (simp add: fully_consolidated_def)
  then have d: "distinct (map (\<lambda>(k, r). key (h2 r)) res)"
    unfolding keq .
  have b: "\<forall>(k, r)\<in>set res. \<bar>qty (h2 r)\<bar> < 1000000000000000000000"
    using assms by (simp add: h2_def res_def)
  have "aggregate e res h2 = (h2, res)"
    using aggregate_of_consolidated(1) [OF c d b] by (simp add: own)
  then show ?thesis by (simp add: h2_def res_def)
qed

text \<open>
  Claim C5. Aggregating a side that is already fully consolidated (one entry for each
  rounded price, every entry with the empty venue) should return a map with the same
  set of pairs of price and quantity. The code does so where the key fields of the
  entries are pairwise distinct (\<open>aggregate_of_consolidated\<close>), but the second loop
  files every seed under its key field, and two seeds with one key field overwrite
  each other. The calls of \<open>collide_book\<close> leave such a side: two objects of empty venue
  at the rounded prices 10 and 11, both with the key field of venue \<open>B\<close>. The aggregation
  of that side returns the entry of price 11 alone; the pair of price 10 is lost, as
  it was from the display of the last pass.
\<close>

theorem aggregate_drops_consolidated_level:
  "map (\<lambda>(k, r). (venue (heap collide_book r), roundedPrice example_env (heap collide_book) r))
     (buySide collide_book) = [([], (False, 100000)), ([], (False, 110000))] \<and>
   map (\<lambda>(k, r). key (heap collide_book r)) (buySide collide_book) = [(''B'', 1), (''B'', 1)] \<and>
   map (\<lambda>(k, r). (price (heap collide_book r), qty (heap collide_book r))) (buySide collide_book)
     = [(10, 11), (11, 3)] \<and>
   map (\<lambda>(k, r). (price (fst (aggregate example_env (buySide collide_book) (heap collide_book)) r),
                   qty (fst (aggregate example_env (buySide collide_book) (heap collide_book)) r)))
     (snd (aggregate example_env (buySide collide_book) (heap collide_book))) = [(11, 3)] \<and>
   price_qty_pairs (fst (aggregate example_env (buySide collide_book) (heap collide_book)))
       (snd (aggregate example_env (buySide collide_book) (heap collide_book)))
     \<noteq> price_qty_pairs (heap collide_book) (buySide collide_book) \<and>
   sortedBuy collide_book = [2]"
proof -
  have side: "buySide collide_book = [((''A'', 1), 0), ((''B'', 1), 2)]"
    and sorted: "sortedBuy collide_book = [2]"
    by (simp_all add: collide_book_def eval_defs eval_more)
  have rows: "heap collide_book 0
      = \<lparr>price = 10, qty = 11, venue = [], vbbo = Finite 10, cumQty = 11, key = (''B'', 1)\<rparr>"
    "heap collide_book 2
      = \<lparr>price = 11, qty = 3, venue = [], vbbo = Finite 11, cumQty = 3, key = (''B'', 1)\<rparr>"
    by (simp_all add: collide_book_def eval_defs eval_more)
  have agg: "snd (aggregate example_env (buySide collide_book) (heap collide_book)) = [((''B'', 1), 2)]"
    by (simp add: side rows eval_more example_env_def)
  have agg2: "price (fst (aggregate example_env (buySide collide_book) (heap collide_book)) 2) = 11"
    by (simp add: aggregate_price rows)
  have agg3: "qty (fst (aggregate example_env (buySide collide_book) (heap collide_book)) 2) = 3"
    by (simp add: side rows eval_more example_env_def)
  have "(10, 11) \<in> price_qty_pairs (heap collide_book) (buySide collide_book)"
    by (simp add: price_qty_pairs_def side rows)
  moreover have "(10, 11) \<notin> price_qty_pairs
      (fst (aggregate example_env (buySide collide_book) (heap collide_book)))
      (snd (aggregate example_env (buySide collide_book) (heap collide_book)))"
    by (simp add: price_qty_pairs_def agg agg2)
  ultimately have ne: "price_qty_pairs (fst (aggregate example_env (buySide collide_book) (heap collide_book)))
       (snd (aggregate example_env (buySide collide_book) (heap collide_book)))
     \<noteq> price_qty_pairs (heap collide_book) (buySide collide_book)"
    by metis
  show ?thesis
    using ne by (simp add: agg agg2 agg3 sorted) (simp add: side rows roundedPrice_def toFixed4_def example_env_def)
qed

end
